theory Spec2Isabelle
  imports Main "HOL-Library.Word"
begin

section \<open>Caliper's JsonSplitFormatter (src/reader/JsonSplitFormatter.cpp)\<close>

subsection \<open>Identifiers and the external metadata types\<close>

text \<open>
  Modelled from the spec: \<open>cali_id_t\<close> and \<open>CALI_INV_ID\<close> (the header cali_types.h that
  declares them is not part of the sources at hand). \<open>cali_id_t\<close> is Caliper's unsigned
  64-bit id type and \<open>CALI_INV_ID\<close> its all-ones value, which the spec calls the "invalid
  id" of the synthetic root and the "no id" sentinel that is never id 0.
\<close>

type_synonym cali_id_t = "64 word"

definition CALI_INV_ID :: cali_id_t where
  "CALI_INV_ID = - 1"

text \<open>
  Modelled from the spec: \<open>Variant\<close> (a value of an entry or node). The formatter only
  ever calls \<open>to_string()\<close> on it, so a variant is represented by that text.
\<close>

datatype Variant = Variant (to_string: string)

text \<open>
  Modelled from the spec: \<open>cali_attr_type\<close>, the declared type of an attribute.
\<close>

datatype cali_attr_type =
    CALI_TYPE_INV | CALI_TYPE_USR | CALI_TYPE_INT | CALI_TYPE_UINT | CALI_TYPE_STRING
  | CALI_TYPE_ADDR | CALI_TYPE_DOUBLE | CALI_TYPE_BOOL | CALI_TYPE_TYPE | CALI_TYPE_PTR

text \<open>
  Modelled from the spec: \<open>Attribute\<close>, "a named, typed schema element with flags:
  hidden, global, store-as-immediate-value, hierarchical (nested)". The fields are the
  results of the accessors the formatter calls: \<open>id()\<close>, \<open>name()\<close>, \<open>type()\<close>,
  \<open>store_as_value()\<close>, \<open>is_hidden()\<close>, \<open>is_global()\<close>, \<open>is_nested()\<close>.
\<close>

record Attribute =
  Attribute_id :: cali_id_t
  Attribute_name :: string
  Attribute_type :: cali_attr_type
  store_as_value :: bool
  is_hidden :: bool
  is_global :: bool
  is_nested :: bool

text \<open>
  Modelled from the spec: \<open>Node\<close>, a node of the external, read-only context tree.
  A node carries its id, the id of its attribute, its data and a parent link (\<open>None\<close>
  is the null pointer). The tree is immutable for the formatter and parent-linked, so a
  node is given together with its finite ancestor chain.
\<close>

datatype Node =
  Node (Node_id: cali_id_t) (Node_attribute: cali_id_t) (Node_data: Variant)
       (Node_parent: "Node option")

text \<open>
  Modelled from the spec: \<open>Entry\<close>, "one attribute/value pair inside a record", either
  immediate or a reference into the node tree. An entry is represented by what its
  accessors \<open>node()\<close>, \<open>attribute()\<close>, \<open>value()\<close> and \<open>is_reference()\<close> return.
  \<open>Entry_of_node\<close> is the constructor \<open>Entry(Node*)\<close> of a reference entry, whose
  attribute and value are those of the node.
\<close>

record Entry =
  Entry_node :: "Node option"
  Entry_attribute :: cali_id_t
  Entry_value :: Variant
  is_reference :: bool

definition Entry_of_node :: "Node \<Rightarrow> Entry" where
  "Entry_of_node n =
     \<lparr> Entry_node = Some n, Entry_attribute = Node_attribute n,
       Entry_value = Node_data n, is_reference = True \<rparr>"

text \<open>
  Modelled from the spec: \<open>Entry_immediate\<close>, the constructor of an immediate entry
  \<open>Entry(attr, value)\<close>: "value stored inline", no node of the context tree referenced.
\<close>

definition Entry_immediate :: "cali_id_t \<Rightarrow> Variant \<Rightarrow> Entry" where
  "Entry_immediate a v =
     \<lparr> Entry_node = None, Entry_attribute = a, Entry_value = v, is_reference = False \<rparr>"

type_synonym EntryList = "Entry list"

subsection \<open>The path interner: class Hierarchy\<close>

text \<open>
  Objects created with \<open>new HierarchyNode\<close> live in an explicit store: \<open>heap\<close> is the
  list of all allocated nodes, in the order of their allocation, and a pointer is an index
  into it.
\<close>

type_synonym ptr = nat

text \<open>
  Modelled from the spec: the links of \<open>util::LockfreeIntrusiveTree\<close> (lockfree-tree.hpp is
  not part of the sources at hand), which a \<open>HierarchyNode\<close> carries in its member
  \<open>m_treenode\<close> next to \<open>m_id\<close>, \<open>m_label\<close> and \<open>m_column\<close>. \<open>tree_parent\<close> is the result
  of \<open>parent()\<close> (\<open>None\<close> is the null pointer) and \<open>tree_children\<close> is the chain
  \<open>first_child()\<close>, \<open>next_sibling()\<close>, ... of the node, first child first.
\<close>

record HierarchyNode =
  tree_parent :: "ptr option"
  tree_children :: "ptr list"
  m_id :: cali_id_t
  m_label :: string
  m_column :: string

record Hierarchy =
  heap :: "HierarchyNode list"
  m_root :: ptr
  m_nodes :: "ptr list"

text \<open>The constructor \<open>HierarchyNode(id, label, column)\<close>: a node without links.\<close>

definition new_HierarchyNode :: "cali_id_t \<Rightarrow> string \<Rightarrow> string \<Rightarrow> HierarchyNode" where
  "new_HierarchyNode i label column =
     \<lparr> tree_parent = None, tree_children = [], m_id = i, m_label = label, m_column = column \<rparr>"

text \<open>The constructor \<open>Hierarchy()\<close>: only the synthetic root exists, with the invalid id.\<close>

definition Hierarchy_init :: Hierarchy where
  "Hierarchy_init =
     \<lparr> heap = [new_HierarchyNode CALI_INV_ID [] []], m_root = 0, m_nodes = [] \<rparr>"

text \<open>
  Modelled from the spec: \<open>LockfreeIntrusiveTree::append\<close>, called as
  \<open>parent->append(node)\<close>, on the store \<open>hp\<close>: "a back-reference to the current node as
  parent; link it as a new child of the current node". The new child becomes the first
  child.
\<close>

definition tree_append :: "HierarchyNode list \<Rightarrow> ptr \<Rightarrow> ptr \<Rightarrow> HierarchyNode list" where
  "tree_append hp parent node =
     (let hp1 = hp[node := (hp ! node)\<lparr> tree_parent := Some parent \<rparr>]
      in hp1[parent := (hp1 ! parent)\<lparr> tree_children := node # tree_children (hp1 ! parent) \<rparr>])"

text \<open>
  The child scan of \<open>get_id\<close>:
  \<open>for (node = parent->first_child(); node && (label != node->label()); node = node->next_sibling());\<close>
  run over the sibling chain; \<open>None\<close> is the null pointer the loop ends with when no
  child carries the label.
\<close>

fun find_child :: "HierarchyNode list \<Rightarrow> string \<Rightarrow> ptr list \<Rightarrow> ptr option" where
  "find_child hp label [] = None"
| "find_child hp label (node # siblings) =
     (if label \<noteq> m_label (hp ! node) then find_child hp label siblings else Some node)"

text \<open>
  The body of \<open>if (!node)\<close>: allocate the node with id \<open>m_nodes.size()\<close> (converted to
  the 64-bit id type), push it to \<open>m_nodes\<close> and append it to the parent. The result is the
  new node's address and the updated interner.
\<close>

definition create_node :: "Hierarchy \<Rightarrow> ptr \<Rightarrow> string \<Rightarrow> string \<Rightarrow> ptr \<times> Hierarchy" where
  "create_node h parent label column =
     (let node = length (heap h);
          hp1 = heap h @ [new_HierarchyNode (of_nat (length (m_nodes h))) label column]
      in (node, h\<lparr> heap := tree_append hp1 parent node, m_nodes := m_nodes h @ [node] \<rparr>))"

text \<open>The loop \<open>for (const Entry& e : vec)\<close> of \<open>get_id\<close>, started at \<open>node\<close>.\<close>

fun get_id_loop :: "Hierarchy \<Rightarrow> ptr \<Rightarrow> Entry list \<Rightarrow> string \<Rightarrow> ptr \<times> Hierarchy" where
  "get_id_loop h node [] column = (node, h)"
| "get_id_loop h node (e # vec) column =
     (let parent = node;
          label = to_string (Entry_value e)
      in case find_child (heap h) label (tree_children (heap h ! parent)) of
           Some found \<Rightarrow> get_id_loop h found vec column
         | None \<Rightarrow>
             (let (created, h') = create_node h parent label column
              in get_id_loop h' created vec column))"

text \<open>\<open>Hierarchy::get_id\<close>: the id of the node reached, and the interner after the call.\<close>

definition get_id :: "Hierarchy \<Rightarrow> Entry list \<Rightarrow> string \<Rightarrow> cali_id_t \<times> Hierarchy" where
  "get_id h vec column =
     (let (node, h') = get_id_loop h (m_root h) vec column
      in (m_id (heap h' ! node), h'))"

subsection \<open>The output stream\<close>

text \<open>
  A \<open>std::ostream\<close> is the text written to it so far; \<open>os << x\<close> appends the text of
  \<open>x\<close>. An id is inserted in decimal (\<open>decimal\<close> of its unsigned value).

  \<open>util::write_esc_string\<close> (format_util.h) is not part of the sources at hand. It is a
  parameter \<open>esc\<close> of every function that calls it: \<open>write_esc_string(os, s)\<close> appends
  \<open>esc s\<close> to \<open>os\<close>.
\<close>

type_synonym ostream = string

definition digit_char :: "nat \<Rightarrow> char" where
  "digit_char d = char_of (48 + d)"

function decimal :: "nat \<Rightarrow> string" where
  "decimal n = (if n < 10 then [digit_char n] else decimal (n div 10) @ [digit_char (n mod 10)])"
  by pat_completeness auto
termination
  by (relation "measure (\<lambda>n. n)") auto

declare decimal.simps [simp del]

text \<open>\<open>HierarchyNode::write_json\<close>, for the node at address \<open>node\<close> of the store.\<close>

definition write_json :: "(string \<Rightarrow> string) \<Rightarrow> HierarchyNode list \<Rightarrow> ptr \<Rightarrow> ostream \<Rightarrow> ostream" where
  \<open>write_json esc hp node os =
     (let os1 = os @ ''{ "label": "'' @ esc (m_label (hp ! node)) @ ''"'';
          os2 = os1 @ '', "column": "'' @ esc (m_column (hp ! node)) @ ''"'';
          os3 = (case tree_parent (hp ! node) of
                   Some parent \<Rightarrow>
                     if m_id (hp ! parent) \<noteq> CALI_INV_ID
                     then os2 @ '', "parent": '' @ decimal (unat (m_id (hp ! parent)))
                     else os2
                 | None \<Rightarrow> os2)
      in os3 @ '' }'')\<close>

text \<open>The loop of \<open>Hierarchy::write_nodes\<close> over \<open>m_nodes\<close>, with its counter \<open>count\<close>.\<close>

fun write_nodes_loop ::
  "(string \<Rightarrow> string) \<Rightarrow> HierarchyNode list \<Rightarrow> ptr list \<Rightarrow> nat \<Rightarrow> ostream \<Rightarrow> ostream" where
  "write_nodes_loop esc hp [] count os = os"
| "write_nodes_loop esc hp (node # nodes) count os =
     write_nodes_loop esc hp nodes (count + 1)
       (write_json esc hp node (os @ (if count > 0 then '', '' else '' '')))"

definition write_nodes :: "(string \<Rightarrow> string) \<Rightarrow> Hierarchy \<Rightarrow> ostream \<Rightarrow> ostream" where
  \<open>write_nodes esc h os =
     write_nodes_loop esc (heap h) (m_nodes h) 0 (os @ ''"nodes": ['') @ '' ]''\<close>

subsection \<open>The query specification and the metadata store\<close>

text \<open>
  Modelled from the spec: \<open>QuerySpec\<close> (QuerySpec.h is not part of the sources at hand):
  "a structured selection descriptor with an enumerated mode (none, default, all, or an
  explicit list) plus a use-path flag, an alias mapping, and, separately, a group-by
  attribute list and an aggregate-operation list". The fields are those \<open>configure\<close>
  reads. The aggregation operation type is left open (\<open>'op\<close>);
  \<open>Aggregator::get_aggregation_attribute_name\<close> is a parameter of \<open>configure\<close>.
\<close>

datatype AttributeSelection = Default | NoneSelection | All | ListSelection

record 'a SelectionList =
  selection :: AttributeSelection
  selection_list :: "'a list"
  use_path :: bool

record 'op QuerySpec =
  select :: "string SelectionList"
  groupby :: "string SelectionList"
  aggregate :: "'op SelectionList"
  aliases :: "string \<rightharpoonup> string"

text \<open>
  Modelled from the spec: \<open>CaliperMetadataAccessInterface\<close>, the external metadata
  store: "enumerate all attributes; resolve an attribute by id; given an attribute id,
  locate its placement in the definition tree; list global entries". A store is given by
  the results of these queries.
\<close>

record CaliperMetadataAccessInterface =
  get_all_attributes :: "Attribute list"
  get_attribute :: "cali_id_t \<Rightarrow> Attribute"
  get_globals :: "Entry list"
  db_node :: "cali_id_t \<Rightarrow> Node option"

subsection \<open>struct JsonSplitFormatterImpl\<close>

record Column =
  title :: string
  attributes :: "Attribute list"
  is_hierarchy :: bool

definition make_column :: "string \<Rightarrow> Attribute \<Rightarrow> Column" where
  "make_column t a = \<lparr> title = t, attributes = [a], is_hierarchy = \<not> store_as_value a \<rparr>"

record JsonSplitFormatterImpl =
  m_select_all :: bool
  m_select_path :: bool
  m_attr_names :: "string list"
  m_aliases :: "string \<rightharpoonup> string"
  m_hierarchy :: Hierarchy
  m_records :: "EntryList list"

text \<open>
  The constructor \<open>JsonSplitFormatterImpl()\<close> initialises \<open>m_select_all\<close> only; the
  member \<open>m_select_path\<close> starts with an indeterminate value, the argument \<open>u\<close>.
\<close>

definition new_JsonSplitFormatterImpl :: "bool \<Rightarrow> JsonSplitFormatterImpl" where
  "new_JsonSplitFormatterImpl u =
     \<lparr> m_select_all = False, m_select_path = u, m_attr_names = [], m_aliases = Map.empty,
       m_hierarchy = Hierarchy_init, m_records = [] \<rparr>"

definition configure ::
  "('op \<Rightarrow> string) \<Rightarrow> 'op QuerySpec \<Rightarrow> JsonSplitFormatterImpl \<Rightarrow> JsonSplitFormatterImpl" where
  "configure get_aggregation_attribute_name spec s =
     (let s1 = s\<lparr> m_select_all := False, m_select_path := use_path (select spec),
                  m_attr_names := [] \<rparr>;
          with_groupby =
            (if selection (groupby spec) = ListSelection
             then s1\<lparr> m_attr_names :=
                         (m_attr_names s1 @ selection_list (groupby spec))
                         @ map get_aggregation_attribute_name (selection_list (aggregate spec)),
                       m_select_path := use_path (groupby spec) \<rparr>
             else s1\<lparr> m_select_all := True \<rparr>);
          s2 = (case selection (select spec) of
                  Default \<Rightarrow> with_groupby
                | All \<Rightarrow> with_groupby
                | NoneSelection \<Rightarrow> s1
                | ListSelection \<Rightarrow>
                    s1\<lparr> m_attr_names := m_attr_names s1 @ selection_list (select spec) \<rparr>)
      in s2\<lparr> m_aliases := aliases spec \<rparr>)"

text \<open>The constructor \<open>JsonSplitFormatter(spec)\<close>: a fresh implementation object, configured.\<close>

definition new_JsonSplitFormatter ::
  "('op \<Rightarrow> string) \<Rightarrow> 'op QuerySpec \<Rightarrow> bool \<Rightarrow> JsonSplitFormatterImpl" where
  "new_JsonSplitFormatter get_aggregation_attribute_name spec u =
     configure get_aggregation_attribute_name spec (new_JsonSplitFormatterImpl u)"

text \<open>
  \<open>init_columns\<close>. The predicate given to \<open>std::remove_if\<close> says which attributes go;
  \<open>remove_if\<close> followed by \<open>erase\<close> keeps the others in their order.
\<close>

definition remove_pred :: "JsonSplitFormatterImpl \<Rightarrow> Attribute \<Rightarrow> bool" where
  "remove_pred s a =
     (if m_select_all s
      then (is_hidden a \<or> is_global a)
      else (let sel = (m_select_path s \<and> is_nested a) \<or> List.member (m_attr_names s) (Attribute_name a)
            in \<not> sel))"

text \<open>The loop \<open>for (const Attribute& a : attrs)\<close> of \<open>init_columns\<close>.\<close>

fun init_columns_loop ::
  "(string \<rightharpoonup> string) \<Rightarrow> Attribute list \<Rightarrow> Column list \<Rightarrow> Column \<Rightarrow> Column list \<times> Column" where
  "init_columns_loop al [] columns path = (columns, path)"
| "init_columns_loop al (a # attrs) columns path =
     (if is_nested a
      then init_columns_loop al attrs columns (path\<lparr> attributes := attributes path @ [a] \<rparr>)
      else (let name = Attribute_name a;
                name' = (case al name of Some t \<Rightarrow> t | None \<Rightarrow> name)
            in init_columns_loop al attrs (columns @ [make_column name' a]) path))"

definition init_columns :: "JsonSplitFormatterImpl \<Rightarrow> CaliperMetadataAccessInterface \<Rightarrow> Column list" where
  "init_columns s db =
     (let attrs = filter (\<lambda>a. \<not> remove_pred s a) (get_all_attributes db);
          path0 = \<lparr> title = ''path'', attributes = [], is_hierarchy = True \<rparr>;
          (columns, path) = init_columns_loop (m_aliases s) attrs [] path0
      in if attributes path \<noteq> [] then columns @ [path] else columns)"

text \<open>
  \<open>write_hierarchy_entry\<close>. Its three nested loops, innermost first:
  \<open>for (const Attribute& a : path_attrs) if (node->attribute() == a.id()) { path.push_back(Entry(node)); break; }\<close>,
  \<open>for (Node* node = e.node(); node && node->id() != CALI_INV_ID; node = node->parent())\<close> and
  \<open>for (const Entry& e : list)\<close>. Each takes the vector \<open>path\<close> built so far and
  returns it extended.
\<close>

fun push_if_path_attr :: "Node \<Rightarrow> Attribute list \<Rightarrow> Entry list \<Rightarrow> Entry list" where
  "push_if_path_attr node [] path = path"
| "push_if_path_attr node (a # path_attrs) path =
     (if Node_attribute node = Attribute_id a
      then path @ [Entry_of_node node]
      else push_if_path_attr node path_attrs path)"

fun walk_ancestors :: "Node option \<Rightarrow> Attribute list \<Rightarrow> Entry list \<Rightarrow> Entry list" where
  "walk_ancestors None path_attrs path = path"
| "walk_ancestors (Some (Node i a d parent)) path_attrs path =
     (if i \<noteq> CALI_INV_ID
      then walk_ancestors parent path_attrs (push_if_path_attr (Node i a d parent) path_attrs path)
      else path)"

fun collect_path :: "EntryList \<Rightarrow> Attribute list \<Rightarrow> Entry list \<Rightarrow> Entry list" where
  "collect_path [] path_attrs path = path"
| "collect_path (e # list) path_attrs path =
     collect_path list path_attrs (walk_ancestors (Entry_node e) path_attrs path)"

definition write_hierarchy_entry ::
  "ostream \<Rightarrow> Hierarchy \<Rightarrow> EntryList \<Rightarrow> Attribute list \<Rightarrow> string \<Rightarrow> ostream \<times> Hierarchy" where
  "write_hierarchy_entry os h list path_attrs column =
     (let path = collect_path list path_attrs [];
          reversed = rev path;
          (i, h') = get_id h reversed column
      in (if i \<noteq> CALI_INV_ID then os @ decimal (unat i) else os @ ''null'', h'))"

text \<open>\<open>write_immediate_entry\<close>: the loop over the record, then the function.\<close>

fun write_immediate_loop ::
  "(string \<Rightarrow> string) \<Rightarrow> bool \<Rightarrow> cali_id_t \<Rightarrow> EntryList \<Rightarrow> ostream \<Rightarrow> ostream" where
  \<open>write_immediate_loop esc quote attr_id [] os = os @ ''null''\<close>
| \<open>write_immediate_loop esc quote attr_id (e # list) os =
     (if Entry_attribute e = attr_id
      then (if quote
            then os @ ''"'' @ esc (to_string (Entry_value e)) @ ''"''
            else os @ to_string (Entry_value e))
      else write_immediate_loop esc quote attr_id list os)\<close>

definition write_immediate_entry ::
  "(string \<Rightarrow> string) \<Rightarrow> ostream \<Rightarrow> EntryList \<Rightarrow> Attribute \<Rightarrow> ostream" where
  "write_immediate_entry esc os list attr =
     (let type = Attribute_type attr;
          quote = \<not> (type = CALI_TYPE_INT \<or> type = CALI_TYPE_UINT \<or> type = CALI_TYPE_DOUBLE)
      in write_immediate_loop esc quote (Attribute_id attr) list os)"

text \<open>\<open>process_record\<close> appends the record to the buffer; the store \<open>db\<close> is not used.\<close>

definition process_record ::
  "CaliperMetadataAccessInterface \<Rightarrow> EntryList \<Rightarrow> JsonSplitFormatterImpl \<Rightarrow> JsonSplitFormatterImpl" where
  "process_record db list s = s\<lparr> m_records := m_records s @ [list] \<rparr>"

text \<open>
  \<open>write_globals\<close>. The local \<open>std::map<cali_id_t, std::string> global_vals\<close> is the list
  of its key/value pairs in ascending key order, the order in which the map is iterated.
  \<open>map_index\<close> reads \<open>global_vals[k]\<close> (the empty string for a key not yet there) and
  \<open>map_assign\<close> is the assignment \<open>global_vals[k] = v\<close>.
\<close>

type_synonym global_map = "(cali_id_t \<times> string) list"

definition map_index :: "global_map \<Rightarrow> cali_id_t \<Rightarrow> string" where
  "map_index m k = (case map_of m k of Some v \<Rightarrow> v | None \<Rightarrow> [])"

fun map_assign :: "cali_id_t \<Rightarrow> string \<Rightarrow> global_map \<Rightarrow> global_map" where
  "map_assign k v [] = [(k, v)]"
| "map_assign k v ((k', v') # m) =
     (if k < k' then (k, v) # (k', v') # m
      else if k = k' then (k, v) # m
      else (k', v') # map_assign k v m)"

fun write_globals_walk :: "Node option \<Rightarrow> global_map \<Rightarrow> global_map" where
  "write_globals_walk None global_vals = global_vals"
| "write_globals_walk (Some (Node i a d parent)) global_vals =
     (if i \<noteq> CALI_INV_ID
      then (let s = to_string d;
                s' = (if length (map_index global_vals a) > 0
                      then s @ ''/'' @ map_index global_vals a
                      else s)
            in write_globals_walk parent (map_assign a s' global_vals))
      else global_vals)"

fun write_globals_collect :: "Entry list \<Rightarrow> global_map \<Rightarrow> global_map" where
  "write_globals_collect [] global_vals = global_vals"
| "write_globals_collect (e # globals) global_vals =
     write_globals_collect globals
       (if is_reference e
        then write_globals_walk (Entry_node e) global_vals
        else map_assign (Entry_attribute e) (to_string (Entry_value e)) global_vals)"

fun write_globals_emit ::
  "(string \<Rightarrow> string) \<Rightarrow> CaliperMetadataAccessInterface \<Rightarrow> global_map \<Rightarrow> ostream \<Rightarrow> ostream" where
  \<open>write_globals_emit esc db [] os = os\<close>
| \<open>write_globals_emit esc db (p # global_vals) os =
     write_globals_emit esc db global_vals
       (os @ '',\<newline>  "'' @ esc (Attribute_name (get_attribute db (fst p))) @ ''": ''
           @ ''"'' @ esc (snd p) @ ''"'')\<close>

definition write_globals ::
  "(string \<Rightarrow> string) \<Rightarrow> ostream \<Rightarrow> CaliperMetadataAccessInterface \<Rightarrow> ostream" where
  "write_globals esc os db =
     write_globals_emit esc db (write_globals_collect (get_globals db) []) os"

text \<open>\<open>write_column_metadata\<close>: the ancestor loop, then the function.\<close>

fun write_column_metadata_loop ::
  "(string \<Rightarrow> string) \<Rightarrow> CaliperMetadataAccessInterface \<Rightarrow> Node option \<Rightarrow> ostream \<Rightarrow> ostream" where
  \<open>write_column_metadata_loop esc db None os = os\<close>
| \<open>write_column_metadata_loop esc db (Some (Node i a d parent)) os =
     (if i \<noteq> CALI_INV_ID
      then (let attr = get_attribute db a
            in if Attribute_id attr < 12 \<or> is_hidden attr
               then write_column_metadata_loop esc db parent os
               else write_column_metadata_loop esc db parent
                      (os @ '', "'' @ esc (Attribute_name attr) @ ''": ''
                          @ ''"'' @ esc (to_string d) @ ''"''))
      else os)\<close>

definition write_column_metadata ::
  "(string \<Rightarrow> string) \<Rightarrow> ostream \<Rightarrow> Column \<Rightarrow> CaliperMetadataAccessInterface \<Rightarrow> ostream" where
  \<open>write_column_metadata esc os column db =
     (let os1 = os @ ''"is_value": '' @ (if is_hierarchy column then ''false'' else ''true'')
      in if length (attributes column) = 1
         then (let node = db_node db (Attribute_id (hd (attributes column)));
                   node' = (case node of Some n \<Rightarrow> Node_parent n | None \<Rightarrow> None)
               in write_column_metadata_loop esc db node' os1)
         else os1)\<close>

text \<open>\<open>write_metadata\<close>: its two loops over the columns, then the function.\<close>

fun write_titles_loop :: "(string \<Rightarrow> string) \<Rightarrow> Column list \<Rightarrow> nat \<Rightarrow> ostream \<Rightarrow> ostream" where
  \<open>write_titles_loop esc [] count os = os\<close>
| \<open>write_titles_loop esc (c # columns) count os =
     write_titles_loop esc columns (count + 1)
       (os @ (if count > 0 then '', '' else '' '') @ ''"'' @ esc (title c) @ ''"'')\<close>

fun write_column_metadata_all ::
  "(string \<Rightarrow> string) \<Rightarrow> CaliperMetadataAccessInterface \<Rightarrow> Column list \<Rightarrow> nat \<Rightarrow> ostream
     \<Rightarrow> nat \<times> ostream" where
  "write_column_metadata_all esc db [] count os = (count, os)"
| "write_column_metadata_all esc db (c # columns) count os =
     write_column_metadata_all esc db columns (count + 1)
       (write_column_metadata esc (os @ (if count > 0 then '' }, { '' else '' { '')) c db)"

definition write_metadata ::
  "(string \<Rightarrow> string) \<Rightarrow> Hierarchy \<Rightarrow> CaliperMetadataAccessInterface \<Rightarrow> Column list \<Rightarrow> ostream
     \<Rightarrow> ostream" where
  \<open>write_metadata esc h db columns os =
     (let os1 = os @ '',\<newline>  "columns": ['';
          os2 = write_titles_loop esc columns 0 os1;
          os3 = os2 @ '' ],\<newline>  "column_metadata": ['';
          (count, os4) = write_column_metadata_all esc db columns 0 os3;
          os5 = (if count > 0 then os4 @ '' } '' else os4);
          os6 = write_nodes esc h (os5 @ '' ],\<newline>  '')
      in write_globals esc os6 db)\<close>

text \<open>
  \<open>flush\<close>: the loop over the columns of one row, the loop over the buffered records,
  then the function. The interner \<open>m_hierarchy\<close> is changed by the path cells and is
  threaded through both loops.
\<close>

fun flush_columns_loop ::
  "(string \<Rightarrow> string) \<Rightarrow> Column list \<Rightarrow> EntryList \<Rightarrow> nat \<Rightarrow> ostream \<times> Hierarchy
     \<Rightarrow> ostream \<times> Hierarchy" where
  "flush_columns_loop esc [] rec colcount (os, h) = (os, h)"
| "flush_columns_loop esc (c # columns) rec colcount (os, h) =
     (let os1 = (if colcount > 0 then os @ '', '' else os)
      in flush_columns_loop esc columns rec (colcount + 1)
           (if is_hierarchy c
            then write_hierarchy_entry os1 h rec (attributes c) (title c)
            else (write_immediate_entry esc os1 rec (hd (attributes c)), h)))"

fun flush_records_loop ::
  "(string \<Rightarrow> string) \<Rightarrow> Column list \<Rightarrow> EntryList list \<Rightarrow> nat \<Rightarrow> ostream \<times> Hierarchy
     \<Rightarrow> ostream \<times> Hierarchy" where
  \<open>flush_records_loop esc columns [] rowcount (os, h) = (os, h)\<close>
| \<open>flush_records_loop esc columns (rec # records) rowcount (os, h) =
     (let os1 = os @ (if rowcount > 0 then '',\<newline>    [ '' else ''\<newline>    [ '');
          (os2, h2) = flush_columns_loop esc columns rec 0 (os1, h)
      in flush_records_loop esc columns records (rowcount + 1) (os2 @ '' ]'', h2))\<close>

definition flush ::
  "(string \<Rightarrow> string) \<Rightarrow> CaliperMetadataAccessInterface \<Rightarrow> JsonSplitFormatterImpl \<Rightarrow> ostream
     \<Rightarrow> ostream \<times> JsonSplitFormatterImpl" where
  \<open>flush esc db s os =
     (let columns = init_columns s db;
          os1 = os @ ''{\<newline>  "data": ['';
          (os2, h) = flush_records_loop esc columns (m_records s) 0 (os1, m_hierarchy s);
          os3 = os2 @ ''\<newline>  ]'';
          os4 = write_metadata esc h db columns os3
      in (os4 @ ''\<newline>}'' @ ''\<newline>'', s\<lparr> m_hierarchy := h \<rparr>))\<close>

section \<open>Notions used to state the properties\<close>

subsection \<open>The interner as a tree of labels\<close>

text \<open>
  \<open>child_of hp p l\<close> is the child of \<open>p\<close> that the scan of \<open>get_id\<close> finds for the
  label \<open>l\<close>, and \<open>walk hp n ls\<close> follows a label sequence downwards from \<open>n\<close> without
  creating anything.
\<close>

definition child_of :: "HierarchyNode list \<Rightarrow> ptr \<Rightarrow> string \<Rightarrow> ptr option" where
  "child_of hp p l = find_child hp l (tree_children (hp ! p))"

fun walk :: "HierarchyNode list \<Rightarrow> ptr \<Rightarrow> string list \<Rightarrow> ptr option" where
  "walk hp n [] = Some n"
| "walk hp n (l # ls) = (case child_of hp n l of None \<Rightarrow> None | Some c \<Rightarrow> walk hp c ls)"

text \<open>The label that \<open>get_id\<close> reads from a path element: \<open>e.value().to_string()\<close>.\<close>

definition label_of :: "Entry \<Rightarrow> string" where
  "label_of e = to_string (Entry_value e)"

text \<open>
  The representation invariant of a \<open>Hierarchy\<close>: the root is the first allocated object
  and has the invalid id and no parent; \<open>m_nodes\<close> lists all other objects in allocation
  order; the object at address \<open>a\<close> has id \<open>a - 1\<close> and an older parent; the children
  chain of an object holds exactly the objects whose parent link points to it, and no two
  of them carry the same label.
\<close>

definition hinv :: "Hierarchy \<Rightarrow> bool" where
  "hinv h \<longleftrightarrow>
     m_root h = 0 \<and> heap h \<noteq> [] \<and>
     m_nodes h = [1..<length (heap h)] \<and>
     m_id (heap h ! 0) = CALI_INV_ID \<and> tree_parent (heap h ! 0) = None \<and>
     (\<forall>a. 0 < a \<and> a < length (heap h) \<longrightarrow>
        m_id (heap h ! a) = of_nat (a - 1) \<and> (\<exists>p<a. tree_parent (heap h ! a) = Some p)) \<and>
     (\<forall>p<length (heap h).
        set (tree_children (heap h ! p)) =
          {c. c < length (heap h) \<and> tree_parent (heap h ! c) = Some p} \<and>
        distinct (map (\<lambda>c. m_label (heap h ! c)) (tree_children (heap h ! p))))"

text \<open>
  \<open>ext h h'\<close>: the interner \<open>h'\<close> extends \<open>h\<close>. Objects of \<open>h\<close> keep their address, id,
  label, column and parent, and every child found in \<open>h\<close> is found in \<open>h'\<close>.
\<close>

definition ext :: "Hierarchy \<Rightarrow> Hierarchy \<Rightarrow> bool" where
  "ext h h' \<longleftrightarrow>
     length (heap h) \<le> length (heap h') \<and>
     (\<forall>a<length (heap h).
        m_id (heap h' ! a) = m_id (heap h ! a) \<and> m_label (heap h' ! a) = m_label (heap h ! a) \<and>
        m_column (heap h' ! a) = m_column (heap h ! a) \<and>
        tree_parent (heap h' ! a) = tree_parent (heap h ! a) \<and>
        (\<forall>l c. child_of (heap h) a l = Some c \<longrightarrow> child_of (heap h') a l = Some c))"

text \<open>
  \<open>evolves h h'\<close>: \<open>h'\<close> is \<open>h\<close> after any number of \<open>get_id\<close> calls. An interner is
  \<open>reachable\<close> when it evolves from the freshly constructed one.
\<close>

inductive evolves :: "Hierarchy \<Rightarrow> Hierarchy \<Rightarrow> bool" where
  evolves_refl: "evolves h h"
| evolves_step: "evolves h h' \<Longrightarrow> evolves h (snd (get_id h' vec column))"

definition reachable :: "Hierarchy \<Rightarrow> bool" where
  "reachable h \<longleftrightarrow> evolves Hierarchy_init h"

subsection \<open>Paths of a record\<close>

text \<open>
  \<open>ancestor_chain n\<close> lists the nodes that the loop
  \<open>for (node = n; node && node->id() != CALI_INV_ID; node = node->parent())\<close> visits, in
  the order of the visits (the entry's own node first, the root last). \<open>kept_chain\<close> keeps
  of the chain of an entry the nodes whose attribute is in the column's attribute set.
\<close>

fun ancestor_chain :: "Node option \<Rightarrow> Node list" where
  "ancestor_chain None = []"
| "ancestor_chain (Some (Node i a d parent)) =
     (if i \<noteq> CALI_INV_ID then Node i a d parent # ancestor_chain parent else [])"

definition kept_chain :: "Attribute list \<Rightarrow> Entry \<Rightarrow> Entry list" where
  "kept_chain path_attrs e =
     map Entry_of_node
       (filter (\<lambda>node. Node_attribute node \<in> Attribute_id ` set path_attrs)
          (ancestor_chain (Entry_node e)))"

text \<open>
  The path as claim C2 words it: take the hierarchical (reference) entries of the record
  whose attribute is in the column's set, reverse the kept chain of each to root-first
  order, and concatenate the reversed chains in record order.
\<close>

definition claimed_path :: "EntryList \<Rightarrow> Attribute list \<Rightarrow> Entry list" where
  "claimed_path list path_attrs =
     concat (map (\<lambda>e. rev (kept_chain path_attrs e))
               (filter (\<lambda>e. is_reference e \<and> Entry_attribute e \<in> Attribute_id ` set path_attrs) list))"

subsection \<open>The document as a table\<close>

text \<open>The title of a value column: the alias of the attribute name if there is one.\<close>

definition column_title :: "(string \<rightharpoonup> string) \<Rightarrow> Attribute \<Rightarrow> string" where
  "column_title al a = (case al (Attribute_name a) of Some t \<Rightarrow> t | None \<Rightarrow> Attribute_name a)"

text \<open>
  \<open>cell\<close> is the text that \<open>flush\<close> writes for one column of one record, with the
  interner after it; \<open>row_cells\<close> are the cells of one record over all columns and
  \<open>table_rows\<close> the rows of all buffered records, the interner threaded through in the
  order of the loops. \<open>row_text\<close>, \<open>data_text\<close> and \<open>titles_text\<close> put the separators of
  \<open>flush\<close> and \<open>write_metadata\<close> between the cells, the rows and the titles; the counters
  are those of the loops.
\<close>

definition cell :: "(string \<Rightarrow> string) \<Rightarrow> Column \<Rightarrow> EntryList \<Rightarrow> Hierarchy \<Rightarrow> string \<times> Hierarchy" where
  "cell esc c rec h =
     (if is_hierarchy c
      then write_hierarchy_entry [] h rec (attributes c) (title c)
      else (write_immediate_entry esc [] rec (hd (attributes c)), h))"

fun row_cells ::
  "(string \<Rightarrow> string) \<Rightarrow> Column list \<Rightarrow> EntryList \<Rightarrow> Hierarchy \<Rightarrow> string list \<times> Hierarchy" where
  "row_cells esc [] rec h = ([], h)"
| "row_cells esc (c # columns) rec h =
     (let (t, h1) = cell esc c rec h;
          (ts, h2) = row_cells esc columns rec h1
      in (t # ts, h2))"

fun table_rows ::
  "(string \<Rightarrow> string) \<Rightarrow> Column list \<Rightarrow> EntryList list \<Rightarrow> Hierarchy
     \<Rightarrow> string list list \<times> Hierarchy" where
  "table_rows esc columns [] h = ([], h)"
| "table_rows esc columns (rec # records) h =
     (let (row, h1) = row_cells esc columns rec h;
          (rows, h2) = table_rows esc columns records h1
      in (row # rows, h2))"

definition row_text :: "nat \<Rightarrow> string list \<Rightarrow> string" where
  "row_text colcount cells =
     concat (map (\<lambda>(j, t). (if j > 0 then '', '' else []) @ t) (enumerate colcount cells))"

definition data_text :: "nat \<Rightarrow> string list list \<Rightarrow> string" where
  \<open>data_text rowcount table =
     concat (map (\<lambda>(r, cells). (if r > 0 then '',\<newline>    [ '' else ''\<newline>    [ '') @ row_text 0 cells @ '' ]'')
               (enumerate rowcount table))\<close>

definition titles_text :: "(string \<Rightarrow> string) \<Rightarrow> nat \<Rightarrow> Column list \<Rightarrow> string" where
  \<open>titles_text esc count columns =
     concat (map (\<lambda>(j, c). (if j > 0 then '', '' else '' '') @ ''"'' @ esc (title c) @ ''"'')
               (enumerate count columns))\<close>

text \<open>The name/value pairs that \<open>write_globals\<close> writes for a map of merged globals.\<close>

definition globals_text ::
  "(string \<Rightarrow> string) \<Rightarrow> CaliperMetadataAccessInterface \<Rightarrow> global_map \<Rightarrow> string" where
  \<open>globals_text esc db global_vals =
     concat (map (\<lambda>p. '',\<newline>  "'' @ esc (Attribute_name (get_attribute db (fst p))) @ ''": "''
                        @ esc (snd p) @ ''"'') global_vals)\<close>

text \<open>
  The texts written by the column metadata loop, by \<open>write_nodes\<close> and by
  \<open>write_metadata\<close> on an empty stream.
\<close>

definition column_metadata_text ::
  "(string \<Rightarrow> string) \<Rightarrow> CaliperMetadataAccessInterface \<Rightarrow> Column list \<Rightarrow> nat \<Rightarrow> string" where
  "column_metadata_text esc db columns count = snd (write_column_metadata_all esc db columns count [])"

definition nodes_text :: "(string \<Rightarrow> string) \<Rightarrow> Hierarchy \<Rightarrow> string" where
  "nodes_text esc h = write_nodes esc h []"

text \<open>
  One entry of the node dictionary as the document shows it: the label, the column and,
  when there is one, the parent reference as a decimal index.
\<close>

definition entry_text :: "(string \<Rightarrow> string) \<Rightarrow> string \<Rightarrow> string \<Rightarrow> nat option \<Rightarrow> string" where
  \<open>entry_text esc label column parent =
     ''{ "label": "'' @ esc label @ ''", "column": "'' @ esc column @ ''"''
       @ (case parent of Some j \<Rightarrow> '', "parent": '' @ decimal j | None \<Rightarrow> [])
       @ '' }''\<close>

text \<open>
  The cell of a value column as claim C7 words it: the text of the first entry of the
  record with the column's attribute, unquoted for the numeric types and between quotes
  and passed through \<open>write_esc_string\<close> otherwise; the null marker when no entry matches.
\<close>

definition claimed_value_cell :: "(string \<Rightarrow> string) \<Rightarrow> EntryList \<Rightarrow> Attribute \<Rightarrow> string" where
  \<open>claimed_value_cell esc rec attr =
     (case find (\<lambda>e. Entry_attribute e = Attribute_id attr) rec of
        None \<Rightarrow> ''null''
      | Some e \<Rightarrow>
          if Attribute_type attr \<in> {CALI_TYPE_INT, CALI_TYPE_UINT, CALI_TYPE_DOUBLE}
          then to_string (Entry_value e)
          else ''"'' @ esc (to_string (Entry_value e)) @ ''"'')\<close>

definition metadata_text ::
  "(string \<Rightarrow> string) \<Rightarrow> Hierarchy \<Rightarrow> CaliperMetadataAccessInterface \<Rightarrow> Column list \<Rightarrow> string" where
  "metadata_text esc h db columns = write_metadata esc h db columns []"

subsection \<open>Merged globals\<close>

text \<open>
  \<open>join sep xs\<close> puts \<open>sep\<close> between the elements of \<open>xs\<close>. \<open>visited_nodes\<close> are the
  nodes that \<open>write_globals\<close> visits, in the order of the visits: for each reference entry
  its node and then the ancestors. \<open>values_of k\<close> are the values of the visited nodes of
  attribute \<open>k\<close>; \<open>touched e\<close> are the attribute ids that the entry \<open>e\<close> assigns to;
  \<open>prepend_value\<close> is one step of the merge.
\<close>

fun join :: "string \<Rightarrow> string list \<Rightarrow> string" where
  "join sep [] = []"
| "join sep (x # xs) = (if xs = [] then x else x @ sep @ join sep xs)"

definition visited_nodes :: "Entry list \<Rightarrow> Node list" where
  "visited_nodes globals =
     concat (map (\<lambda>e. if is_reference e then ancestor_chain (Entry_node e) else []) globals)"

definition values_of :: "cali_id_t \<Rightarrow> Node list \<Rightarrow> string list" where
  "values_of k nodes = map (\<lambda>n. to_string (Node_data n)) (filter (\<lambda>n. Node_attribute n = k) nodes)"

definition touched :: "Entry \<Rightarrow> cali_id_t set" where
  "touched e =
     (if is_reference e then Node_attribute ` set (ancestor_chain (Entry_node e))
      else {Entry_attribute e})"

definition prepend_value :: "string \<Rightarrow> string \<Rightarrow> string" where
  "prepend_value acc v = (if length acc > 0 then v @ ''/'' @ acc else v)"

subsection \<open>Example data\<close>

text \<open>
  Attributes, context-tree nodes, records, a metadata store and query specifications used
  to run the model: two nested attributes, a numeric attribute stored as value, a textual
  attribute that is neither nested nor stored as value, and two global attributes.
\<close>

definition ex_function :: Attribute where
  "ex_function = \<lparr> Attribute_id = 20, Attribute_name = ''function'', Attribute_type = CALI_TYPE_STRING,
     store_as_value = False, is_hidden = False, is_global = False, is_nested = True \<rparr>"

definition ex_loop :: Attribute where
  "ex_loop = \<lparr> Attribute_id = 21, Attribute_name = ''loop'', Attribute_type = CALI_TYPE_STRING,
     store_as_value = False, is_hidden = False, is_global = False, is_nested = True \<rparr>"

definition ex_duration :: Attribute where
  "ex_duration = \<lparr> Attribute_id = 22, Attribute_name = ''time.duration'', Attribute_type = CALI_TYPE_DOUBLE,
     store_as_value = True, is_hidden = False, is_global = False, is_nested = False \<rparr>"

definition ex_phase :: Attribute where
  "ex_phase = \<lparr> Attribute_id = 23, Attribute_name = ''phase'', Attribute_type = CALI_TYPE_STRING,
     store_as_value = False, is_hidden = False, is_global = False, is_nested = False \<rparr>"

definition ex_build :: Attribute where
  "ex_build = \<lparr> Attribute_id = 30, Attribute_name = ''build'', Attribute_type = CALI_TYPE_STRING,
     store_as_value = False, is_hidden = False, is_global = True, is_nested = False \<rparr>"

definition ex_main :: Node where "ex_main = Node 100 20 (Variant ''main'') None"
definition ex_foo :: Node where "ex_foo = Node 101 20 (Variant ''foo'') (Some ex_main)"
definition ex_bar :: Node where "ex_bar = Node 102 20 (Variant ''bar'') (Some ex_main)"
definition ex_outer :: Node where "ex_outer = Node 103 21 (Variant ''outer'') None"
definition ex_init :: Node where "ex_init = Node 104 23 (Variant ''init'') None"
definition ex_x :: Node where "ex_x = Node 105 30 (Variant ''x'') None"
definition ex_y :: Node where "ex_y = Node 106 30 (Variant ''y'') None"

definition ex_mode :: Attribute where
  "ex_mode = \<lparr> Attribute_id = 31, Attribute_name = ''mode'', Attribute_type = CALI_TYPE_STRING,
     store_as_value = True, is_hidden = False, is_global = True, is_nested = False \<rparr>"

definition ex_db :: CaliperMetadataAccessInterface where
  "ex_db = \<lparr> get_all_attributes = [ex_function, ex_duration, ex_loop, ex_phase, ex_build, ex_mode],
     get_attribute = (\<lambda>i. if i = 20 then ex_function else if i = 21 then ex_loop
                          else if i = 22 then ex_duration else if i = 23 then ex_phase
                          else if i = 30 then ex_build else ex_mode),
     get_globals = [Entry_of_node ex_x, Entry_of_node ex_y, Entry_immediate 31 (Variant ''release'')],
     db_node = (\<lambda>i. None) \<rparr>"

definition ex_spec :: "(string \<times> string) QuerySpec" where
  "ex_spec = \<lparr> select = \<lparr> selection = Default, selection_list = [], use_path = False \<rparr>,
               groupby = \<lparr> selection = Default, selection_list = [], use_path = False \<rparr>,
               aggregate = \<lparr> selection = Default, selection_list = [], use_path = False \<rparr>,
               aliases = [''time.duration'' \<mapsto> ''Time''] \<rparr>"

definition ex_aggregate_name :: "string \<times> string \<Rightarrow> string" where
  "ex_aggregate_name op = fst op @ ''#'' @ snd op"

definition ex_path_foo :: "Entry list" where
  "ex_path_foo = [Entry_of_node ex_main, Entry_of_node ex_foo]"

definition ex_path_bar :: "Entry list" where
  "ex_path_bar = [Entry_of_node ex_main, Entry_of_node ex_bar]"

definition ex_h1 :: Hierarchy where
  "ex_h1 = snd (get_id Hierarchy_init ex_path_foo ''path'')"

definition ex_record1 :: EntryList where
  "ex_record1 = [Entry_of_node ex_foo, Entry_immediate 22 (Variant ''1.5'')]"

definition ex_record2 :: EntryList where
  "ex_record2 = [Entry_of_node ex_main, Entry_of_node ex_outer]"

definition ex_formatter :: JsonSplitFormatterImpl where
  "ex_formatter = new_JsonSplitFormatter ex_aggregate_name ex_spec False"

definition ex_spec_groupby :: "(string \<times> string) QuerySpec" where
  "ex_spec_groupby = \<lparr> select = \<lparr> selection = Default, selection_list = [], use_path = False \<rparr>,
               groupby = \<lparr> selection = ListSelection, selection_list = [''region''], use_path = True \<rparr>,
               aggregate = \<lparr> selection = ListSelection, selection_list = [(''sum'', ''time.duration'')], use_path = False \<rparr>,
               aliases = Map.empty \<rparr>"

definition ex_spec_empty_groupby :: "(string \<times> string) QuerySpec" where
  "ex_spec_empty_groupby = \<lparr> select = \<lparr> selection = Default, selection_list = [], use_path = False \<rparr>,
               groupby = \<lparr> selection = ListSelection, selection_list = [], use_path = True \<rparr>,
               aggregate = \<lparr> selection = Default, selection_list = [], use_path = False \<rparr>,
               aliases = Map.empty \<rparr>"

definition ex_state :: JsonSplitFormatterImpl where
  "ex_state = foldl (\<lambda>s r. process_record ex_db r s)
                (new_JsonSplitFormatter ex_aggregate_name ex_spec False) [ex_record1, ex_record2]"

section \<open>Verification\<close>

subsection \<open>The interner invariant\<close>

lemma hinv_init: "hinv Hierarchy_init"
  by (auto simp add: hinv_def Hierarchy_init_def new_HierarchyNode_def nth_Cons')

lemma ext_refl: "ext h h"
  by (simp add: ext_def)

lemma ext_trans: "ext h h' \<Longrightarrow> ext h' h'' \<Longrightarrow> ext h h''"
proof -
  assume a: "ext h h'" and b: "ext h' h''"
  have len: "length (heap h) \<le> length (heap h')" "length (heap h') \<le> length (heap h'')"
    using a b by (simp_all add: ext_def)
  show ?thesis
    unfolding ext_def
  proof (intro conjI allI impI)
    show "length (heap h) \<le> length (heap h'')" using len by simp
  next
    fix x assume x: "x < length (heap h)"
    then have x': "x < length (heap h')" using len by simp
    show "m_id (heap h'' ! x) = m_id (heap h ! x)" using a b x x' by (simp add: ext_def)
    show "m_label (heap h'' ! x) = m_label (heap h ! x)" using a b x x' by (simp add: ext_def)
    show "m_column (heap h'' ! x) = m_column (heap h ! x)" using a b x x' by (simp add: ext_def)
    show "tree_parent (heap h'' ! x) = tree_parent (heap h ! x)" using a b x x' by (simp add: ext_def)
    fix l c assume "child_of (heap h) x l = Some c"
    then have "child_of (heap h') x l = Some c" using a x by (simp add: ext_def)
    then show "child_of (heap h'') x l = Some c" using b x' by (simp add: ext_def)
  qed
qed

lemma find_child_None: "find_child hp l cs = None \<longleftrightarrow> l \<notin> (\<lambda>c. m_label (hp ! c)) ` set cs"
  by (induction cs) auto

lemma find_child_Some: "find_child hp l cs = Some c \<Longrightarrow> c \<in> set cs \<and> m_label (hp ! c) = l"
  by (induction cs) (auto split: if_splits)

lemma find_child_distinct:
  "distinct (map (\<lambda>c. m_label (hp ! c)) cs) \<Longrightarrow> c \<in> set cs \<Longrightarrow> find_child hp (m_label (hp ! c)) cs = Some c"
  by (induction cs) (auto simp: image_iff)

lemma find_child_cong:
  "\<forall>c\<in>set cs. m_label (hp' ! c) = m_label (hp ! c) \<Longrightarrow> find_child hp' l cs = find_child hp l cs"
  by (induction cs) auto

lemma create_node_heap:
  assumes "parent < length (heap h)"
  shows "heap (snd (create_node h parent label column)) =
           (heap h)[parent := (heap h ! parent)\<lparr> tree_children := length (heap h) # tree_children (heap h ! parent) \<rparr>]
           @ [\<lparr> tree_parent = Some parent, tree_children = [], m_id = of_nat (length (m_nodes h)), m_label = label, m_column = column \<rparr>]"
  using assms
  by (simp add: create_node_def tree_append_def Let_def new_HierarchyNode_def nth_append list_update_append)

lemma create_node_fst: "fst (create_node h parent label column) = length (heap h)"
  by (simp add: create_node_def Let_def)

lemma create_node_m_nodes:
  "m_nodes (snd (create_node h parent label column)) = m_nodes h @ [length (heap h)]"
  by (simp add: create_node_def Let_def)

lemma create_node_m_root:
  "m_root (snd (create_node h parent label column)) = m_root h"
  by (simp add: create_node_def Let_def)

lemma create_node_length:
  "length (heap (snd (create_node h parent label column))) = Suc (length (heap h))"
  by (simp add: create_node_def Let_def tree_append_def)

lemma create_node_nth_old:
  assumes "parent < length (heap h)" "a < length (heap h)"
  shows "heap (snd (create_node h parent label column)) ! a =
           (if a = parent
            then (heap h ! parent)\<lparr> tree_children := length (heap h) # tree_children (heap h ! parent) \<rparr>
            else heap h ! a)"
  using assms by (simp add: create_node_heap nth_append)

lemma create_node_nth_new:
  assumes "parent < length (heap h)"
  shows "heap (snd (create_node h parent label column)) ! (length (heap h)) =
           \<lparr> tree_parent = Some parent, tree_children = [], m_id = of_nat (length (m_nodes h)),
              m_label = label, m_column = column \<rparr>"
  using assms by (simp add: create_node_heap nth_append)

lemma hinv_child_bound:
  "hinv h \<Longrightarrow> p < length (heap h) \<Longrightarrow> child_of (heap h) p l = Some c \<Longrightarrow>
     c < length (heap h) \<and> p < c \<and> tree_parent (heap h ! c) = Some p \<and> m_label (heap h ! c) = l"
proof -
  assume inv: "hinv h" and p: "p < length (heap h)" and c: "child_of (heap h) p l = Some c"
  from c have mem: "c \<in> set (tree_children (heap h ! p))" and lab: "m_label (heap h ! c) = l"
    using find_child_Some by (auto simp: child_of_def)
  from inv p have "set (tree_children (heap h ! p)) = {c. c < length (heap h) \<and> tree_parent (heap h ! c) = Some p}"
    by (simp add: hinv_def)
  with mem have cb: "c < length (heap h)" and par: "tree_parent (heap h ! c) = Some p" by auto
  have "0 < c"
  proof (rule ccontr)
    assume "\<not> 0 < c" then have "c = 0" by simp
    with par inv show False by (simp add: hinv_def)
  qed
  with inv cb obtain q where "q < c" "tree_parent (heap h ! c) = Some q" by (auto simp: hinv_def)
  with par have "p < c" by simp
  with cb par lab show ?thesis by simp
qed

lemma create_node_hinv:
  assumes inv: "hinv h" and p: "parent < length (heap h)"
    and none: "child_of (heap h) parent label = None"
  shows "hinv (snd (create_node h parent label column))"
proof -
  let ?h' = "snd (create_node h parent label column)"
  let ?n = "length (heap h)"
  have len: "length (heap ?h') = Suc ?n" by (rule create_node_length)
  have old: "\<And>a. a < ?n \<Longrightarrow> heap ?h' ! a =
           (if a = parent
            then (heap h ! parent)\<lparr> tree_children := ?n # tree_children (heap h ! parent) \<rparr>
            else heap h ! a)"
    using create_node_nth_old [OF p] by simp
  have new: "heap ?h' ! ?n = \<lparr> tree_parent = Some parent, tree_children = [], m_id = of_nat (length (m_nodes h)),
              m_label = label, m_column = column \<rparr>"
    using create_node_nth_new [OF p] by simp
  have n0: "0 < ?n" using inv by (simp add: hinv_def)
  have mn: "m_nodes h = [1..<?n]" using inv by (simp add: hinv_def)
  have par_old: "\<And>a. a < ?n \<Longrightarrow> tree_parent (heap ?h' ! a) = tree_parent (heap h ! a)"
    by (simp add: old)
  have lab_old: "\<And>a. a < ?n \<Longrightarrow> m_label (heap ?h' ! a) = m_label (heap h ! a)"
    by (simp add: old)
  have id_old: "\<And>a. a < ?n \<Longrightarrow> m_id (heap ?h' ! a) = m_id (heap h ! a)"
    by (simp add: old)
  have c1: "m_root ?h' = 0" using inv by (simp add: create_node_m_root hinv_def)
  have c2: "heap ?h' \<noteq> []" using len by auto
  have c3: "m_nodes ?h' = [1..<length (heap ?h')]"
    using n0 by (cases "heap h") (simp_all add: create_node_m_nodes len mn)
  have c4: "m_id (heap ?h' ! 0) = CALI_INV_ID \<and> tree_parent (heap ?h' ! 0) = None"
    using inv n0 by (simp add: id_old par_old hinv_def)
  have c5: "\<forall>a. 0 < a \<and> a < length (heap ?h') \<longrightarrow>
        m_id (heap ?h' ! a) = of_nat (a - 1) \<and> (\<exists>q<a. tree_parent (heap ?h' ! a) = Some q)"
  proof (intro allI impI)
    fix a assume a: "0 < a \<and> a < length (heap ?h')"
    show "m_id (heap ?h' ! a) = of_nat (a - 1) \<and> (\<exists>q<a. tree_parent (heap ?h' ! a) = Some q)"
    proof (cases "a < ?n")
      case True
      then show ?thesis using inv a by (simp add: id_old par_old hinv_def)
    next
      case False
      with a len have "a = ?n" by simp
      then show ?thesis using new p mn by simp
    qed
  qed
  have c6: "\<forall>q<length (heap ?h').
        set (tree_children (heap ?h' ! q)) = {c. c < length (heap ?h') \<and> tree_parent (heap ?h' ! c) = Some q} \<and>
        distinct (map (\<lambda>c. m_label (heap ?h' ! c)) (tree_children (heap ?h' ! q)))"
  proof (intro allI impI)
    fix q assume q: "q < length (heap ?h')"
    have parset: "{c. c < length (heap ?h') \<and> tree_parent (heap ?h' ! c) = Some q}
              = {c. c < ?n \<and> tree_parent (heap h ! c) = Some q} \<union> (if q = parent then {?n} else {})"
      using par_old new by (auto simp: len less_Suc_eq)
    show "set (tree_children (heap ?h' ! q)) = {c. c < length (heap ?h') \<and> tree_parent (heap ?h' ! c) = Some q} \<and>
        distinct (map (\<lambda>c. m_label (heap ?h' ! c)) (tree_children (heap ?h' ! q)))"
    proof (cases "q < ?n")
      case False
      with q len have qn: "q = ?n" by simp
      have "{c. c < ?n \<and> tree_parent (heap h ! c) = Some ?n} = {}"
        using inv by (auto simp: hinv_def) (metis gr0I less_asym option.distinct(1) option.inject)
      then show ?thesis using qn new p parset by auto
    next
      case True
      have cs: "set (tree_children (heap h ! q)) = {c. c < ?n \<and> tree_parent (heap h ! c) = Some q}"
        and ds: "distinct (map (\<lambda>c. m_label (heap h ! c)) (tree_children (heap h ! q)))"
        using inv True by (simp_all add: hinv_def)
      have same: "map (\<lambda>c. m_label (heap ?h' ! c)) (tree_children (heap h ! q))
                = map (\<lambda>c. m_label (heap h ! c)) (tree_children (heap h ! q))"
        using cs lab_old by auto
      have ds': "distinct (map (\<lambda>c. m_label (heap ?h' ! c)) (tree_children (heap h ! q)))"
        unfolding same by (rule ds)
      have ch: "tree_children (heap ?h' ! q) =
                  (if q = parent then ?n # tree_children (heap h ! q) else tree_children (heap h ! q))"
        using True by (simp add: old)
      show ?thesis
      proof (cases "q = parent")
        case False
        then show ?thesis using ch cs ds' parset by simp
      next
        case qp: True
        have "label \<notin> (\<lambda>c. m_label (heap h ! c)) ` set (tree_children (heap h ! parent))"
          using none by (simp add: child_of_def find_child_None)
        then have "label \<notin> set (map (\<lambda>c. m_label (heap h ! c)) (tree_children (heap h ! q)))"
          using qp by simp
        then have nl: "label \<notin> set (map (\<lambda>c. m_label (heap ?h' ! c)) (tree_children (heap h ! q)))"
          unfolding same .
        have newlab: "m_label (heap ?h' ! ?n) = label" by (simp add: new)
        have "set (tree_children (heap ?h' ! q)) = {c. c < length (heap ?h') \<and> tree_parent (heap ?h' ! c) = Some q}"
          using ch cs parset qp by auto
        moreover have "distinct (map (\<lambda>c. m_label (heap ?h' ! c)) (tree_children (heap ?h' ! q)))"
          using ch ds' qp nl newlab by simp
        ultimately show ?thesis by simp
      qed
    qed
  qed
  show ?thesis
    unfolding hinv_def using c1 c2 c3 c4 c5 c6 by blast
qed

lemma create_node_child_new:
  assumes p: "parent < length (heap h)"
  shows "child_of (heap (snd (create_node h parent label column))) parent label = Some (length (heap h))"
  using p by (simp add: child_of_def create_node_nth_old create_node_nth_new)

lemma create_node_ext:
  assumes inv: "hinv h" and p: "parent < length (heap h)"
    and none: "child_of (heap h) parent label = None"
  shows "ext h (snd (create_node h parent label column))"
proof -
  let ?h' = "snd (create_node h parent label column)"
  let ?n = "length (heap h)"
  have old: "\<And>a. a < ?n \<Longrightarrow> heap ?h' ! a =
           (if a = parent
            then (heap h ! parent)\<lparr> tree_children := ?n # tree_children (heap h ! parent) \<rparr>
            else heap h ! a)"
    using create_node_nth_old [OF p] by simp
  have new: "m_label (heap ?h' ! ?n) = label"
    using create_node_nth_new [OF p] by simp
  have lab_old: "\<And>a. a < ?n \<Longrightarrow> m_label (heap ?h' ! a) = m_label (heap h ! a)"
    by (simp add: old)
  have kids: "child_of (heap ?h') a l = Some c"
    if a: "a < ?n" and c: "child_of (heap h) a l = Some c" for a l c
  proof -
    have sub: "\<forall>x\<in>set (tree_children (heap h ! a)). x < ?n"
      using inv a by (simp add: hinv_def)
    then have cong: "find_child (heap ?h') l (tree_children (heap h ! a))
                   = find_child (heap h) l (tree_children (heap h ! a))"
      by (intro find_child_cong) (simp add: lab_old)
    show ?thesis
    proof (cases "a = parent")
      case False
      then show ?thesis using a c cong by (simp add: child_of_def old)
    next
      case True
      with c none have "l \<noteq> label" by auto
      then show ?thesis using True a c cong new by (simp add: child_of_def old)
    qed
  qed
  show ?thesis
    unfolding ext_def
  proof (intro conjI allI impI)
    show "?n \<le> length (heap ?h')" by (simp add: create_node_length)
  next
    fix a assume a: "a < ?n"
    show "m_id (heap ?h' ! a) = m_id (heap h ! a)" using a by (simp add: old)
    show "m_label (heap ?h' ! a) = m_label (heap h ! a)" using a by (simp add: old)
    show "m_column (heap ?h' ! a) = m_column (heap h ! a)" using a by (simp add: old)
    show "tree_parent (heap ?h' ! a) = tree_parent (heap h ! a)" using a by (simp add: old)
    fix l c assume "child_of (heap h) a l = Some c"
    then show "child_of (heap ?h') a l = Some c" using a kids by simp
  qed
qed

lemma ext_walk:
  "hinv h \<Longrightarrow> ext h h' \<Longrightarrow> a < length (heap h) \<Longrightarrow> walk (heap h) a ls = Some b \<Longrightarrow>
     walk (heap h') a ls = Some b"
proof (induction ls arbitrary: a)
  case Nil
  then show ?case by simp
next
  case (Cons l ls)
  from Cons.prems(4) obtain c where c: "child_of (heap h) a l = Some c" and w: "walk (heap h) c ls = Some b"
    by (auto split: option.splits)
  have cb: "c < length (heap h)" using hinv_child_bound [OF Cons.prems(1) Cons.prems(3) c] by simp
  have c': "child_of (heap h') a l = Some c" using Cons.prems(2,3) c by (simp add: ext_def)
  have "walk (heap h') c ls = Some b" using Cons.IH [OF Cons.prems(1,2) cb w] .
  with c' show ?case by simp
qed

lemma walk_bound:
  "hinv h \<Longrightarrow> a < length (heap h) \<Longrightarrow> walk (heap h) a ls = Some b \<Longrightarrow>
     b < length (heap h) \<and> a \<le> b \<and> (ls \<noteq> [] \<longrightarrow> a < b)"
proof (induction ls arbitrary: a)
  case Nil
  then show ?case by simp
next
  case (Cons l ls)
  from Cons.prems(3) obtain c where c: "child_of (heap h) a l = Some c" and w: "walk (heap h) c ls = Some b"
    by (auto split: option.splits)
  have cb: "c < length (heap h) \<and> a < c" using hinv_child_bound [OF Cons.prems(1,2) c] by simp
  then have "b < length (heap h) \<and> c \<le> b" using Cons.IH [OF Cons.prems(1) _ w] by simp
  with cb show ?case by simp
qed

lemma walk_snoc:
  "walk hp a (ls @ [l]) = (case walk hp a ls of None \<Rightarrow> None | Some p \<Rightarrow> child_of hp p l)"
  by (induction ls arbitrary: a) (auto split: option.splits)

lemma walk_inj:
  "hinv h \<Longrightarrow> a < length (heap h) \<Longrightarrow> walk (heap h) a ls = Some b \<Longrightarrow> walk (heap h) a ls' = Some b \<Longrightarrow>
     ls = ls'"
proof (induction ls arbitrary: b ls' rule: rev_induct)
  case Nil
  then have "b = a" by simp
  with walk_bound [OF Nil.prems(1,2,4)] show ?case by auto
next
  case (snoc l ls)
  from snoc.prems(3) obtain p where p: "walk (heap h) a ls = Some p" and c: "child_of (heap h) p l = Some b"
    by (auto simp: walk_snoc split: option.splits)
  have pb: "p < length (heap h) \<and> a \<le> p" using walk_bound [OF snoc.prems(1,2) p] by simp
  have bp: "p < b \<and> tree_parent (heap h ! b) = Some p \<and> m_label (heap h ! b) = l"
    using hinv_child_bound [OF snoc.prems(1) _ c] pb by simp
  show ?case
  proof (cases ls' rule: rev_cases)
    case Nil
    with snoc.prems(4) have "b = a" by simp
    with pb bp show ?thesis by simp
  next
    case (snoc ls0 l')
    with snoc.prems(4) obtain p' where p': "walk (heap h) a ls0 = Some p'" and c': "child_of (heap h) p' l' = Some b"
      by (auto simp: walk_snoc split: option.splits)
    have pb': "p' < length (heap h)" using walk_bound [OF snoc.prems(1,2) p'] by simp
    have bp': "tree_parent (heap h ! b) = Some p' \<and> m_label (heap h ! b) = l'"
      using hinv_child_bound [OF snoc.prems(1) pb' c'] by simp
    from bp bp' have eq: "p' = p" "l' = l" by simp_all
    have "ls = ls0" using snoc.IH [OF snoc.prems(1,2) p] p' eq by simp
    with eq snoc show ?thesis by simp
  qed
qed

lemma get_id_loop_props:
  "hinv h \<Longrightarrow> node < length (heap h) \<Longrightarrow> get_id_loop h node vec column = (n', h') \<Longrightarrow>
     hinv h' \<and> ext h h' \<and> n' < length (heap h') \<and>
     walk (heap h') node (map (\<lambda>e. to_string (Entry_value e)) vec) = Some n'"
proof (induction vec arbitrary: h node)
  case Nil
  then show ?case by (simp add: ext_refl)
next
  case (Cons e vec)
  let ?l = "to_string (Entry_value e)"
  show ?case
  proof (cases "child_of (heap h) node ?l")
    case (Some c)
    then have r: "get_id_loop h c vec column = (n', h')"
      using Cons.prems(3) by (simp add: child_of_def)
    have cb: "c < length (heap h)" using hinv_child_bound [OF Cons.prems(1,2) Some] by simp
    have ih: "hinv h' \<and> ext h h' \<and> n' < length (heap h') \<and>
        walk (heap h') c (map (\<lambda>e. to_string (Entry_value e)) vec) = Some n'"
      using Cons.IH [OF Cons.prems(1) cb r] .
    then have "child_of (heap h') node ?l = Some c"
      using Some Cons.prems(2) by (simp add: ext_def)
    with ih show ?thesis by simp
  next
    case None
    let ?h1 = "snd (create_node h node ?l column)"
    let ?c = "length (heap h)"
    have cn: "create_node h node ?l column = (?c, ?h1)"
      using create_node_fst [of h node ?l column] by (simp add: prod_eq_iff)
    have r: "get_id_loop ?h1 ?c vec column = (n', h')"
      using Cons.prems(3) None by (simp add: child_of_def case_prod_beta create_node_fst)
    have inv1: "hinv ?h1" using create_node_hinv [OF Cons.prems(1,2) None] .
    have ext1: "ext h ?h1" using create_node_ext [OF Cons.prems(1,2) None] .
    have cb: "?c < length (heap ?h1)" by (simp add: create_node_length)
    have ih: "hinv h' \<and> ext ?h1 h' \<and> n' < length (heap h') \<and>
        walk (heap h') ?c (map (\<lambda>e. to_string (Entry_value e)) vec) = Some n'"
      using Cons.IH [OF inv1 cb r] .
    have nb: "node < length (heap ?h1)" using Cons.prems(2) by (simp add: create_node_length)
    have "child_of (heap ?h1) node ?l = Some ?c"
      using create_node_child_new [OF Cons.prems(2)] .
    then have "child_of (heap h') node ?l = Some ?c"
      using ih nb by (simp add: ext_def)
    with ih ext1 show ?thesis using ext_trans by auto
  qed
qed

subsection \<open>What a call of \<open>get_id\<close> establishes\<close>

lemma get_id_props:
  assumes inv: "hinv h"
  shows "hinv (snd (get_id h vec column)) \<and> ext h (snd (get_id h vec column)) \<and>
         (\<exists>n. n < length (heap (snd (get_id h vec column))) \<and>
              walk (heap (snd (get_id h vec column))) 0 (map label_of vec) = Some n \<and>
              fst (get_id h vec column) = m_id (heap (snd (get_id h vec column)) ! n))"
proof -
  obtain n h' where r: "get_id_loop h (m_root h) vec column = (n, h')"
    by (cases "get_id_loop h (m_root h) vec column")
  have root: "m_root h = 0" and ne: "0 < length (heap h)" using inv by (simp_all add: hinv_def)
  have lab: "map (\<lambda>e. to_string (Entry_value e)) vec = map label_of vec"
    by (simp add: label_of_def)
  have "hinv h' \<and> ext h h' \<and> n < length (heap h') \<and> walk (heap h') 0 (map label_of vec) = Some n"
    using get_id_loop_props [OF inv _ r [unfolded root]] ne lab by simp
  moreover have "get_id h vec column = (m_id (heap h' ! n), h')"
    using r by (simp add: get_id_def)
  ultimately show ?thesis by auto
qed

lemma evolves_hinv_ext: "evolves h h' \<Longrightarrow> hinv h \<Longrightarrow> hinv h' \<and> ext h h'"
proof (induction rule: evolves.induct)
  case (evolves_refl h)
  then show ?case by (simp add: ext_refl)
next
  case (evolves_step h h' vec column)
  then have a: "hinv h'" and b: "ext h h'" by simp_all
  from get_id_props [OF a, of vec column] b show ?case using ext_trans by blast
qed

lemma reachable_hinv: "reachable h \<Longrightarrow> hinv h"
  using evolves_hinv_ext [OF _ hinv_init] by (simp add: reachable_def)

lemma evolves_trans: "evolves h' h'' \<Longrightarrow> evolves h h' \<Longrightarrow> evolves h h''"
  by (induction rule: evolves.induct) (auto intro: evolves.intros)

lemma unat_CALI_INV_ID: "unat CALI_INV_ID = 2 ^ 64 - 1"
  by (simp add: CALI_INV_ID_def unsigned_minus_1_eq_mask mask_eq_exp_minus_1)

lemma hinv_length_m_nodes: "hinv h \<Longrightarrow> length (heap h) = Suc (length (m_nodes h))"
proof -
  assume inv: "hinv h"
  have a: "m_nodes h = [1..<length (heap h)]" and b: "heap h \<noteq> []"
    using inv by (simp_all add: hinv_def)
  have "length (m_nodes h) = length (heap h) - 1" by (simp add: a)
  moreover have "0 < length (heap h)" using b by simp
  ultimately show ?thesis by simp
qed

lemma hinv_unat_id:
  assumes "hinv h" "length (m_nodes h) < 2 ^ 64" "0 < a" "a < length (heap h)"
  shows "unat (m_id (heap h ! a)) = a - 1"
proof -
  have "m_id (heap h ! a) = of_nat (a - 1)" using assms by (simp add: hinv_def)
  moreover have "a - 1 < 2 ^ 64" using assms hinv_length_m_nodes [of h] by simp
  ultimately show ?thesis by (simp add: unat_of_nat)
qed

lemma hinv_id_inj:
  assumes inv: "hinv h" and bound: "length (m_nodes h) < 2 ^ 64"
    and a: "a < length (heap h)" and b: "b < length (heap h)"
    and eq: "m_id (heap h ! a) = m_id (heap h ! b)"
  shows "a = b"
proof -
  have len: "length (heap h) = Suc (length (m_nodes h))" using inv by (rule hinv_length_m_nodes)
  have root: "unat (m_id (heap h ! 0)) = 2 ^ 64 - 1"
    using inv by (simp add: hinv_def unat_CALI_INV_ID)
  have other: "\<And>x. 0 < x \<Longrightarrow> x < length (heap h) \<Longrightarrow> unat (m_id (heap h ! x)) = x - 1"
    using hinv_unat_id [OF inv bound] by simp
  have u: "unat (m_id (heap h ! a)) = unat (m_id (heap h ! b))" using eq by simp
  show ?thesis
  proof (cases "a = 0")
    case True
    show ?thesis
    proof (cases "b = 0")
      case True with \<open>a = 0\<close> show ?thesis by simp
    next
      case False
      then have "unat (m_id (heap h ! b)) = b - 1" using other b by simp
      with u root True have "b - 1 = 2 ^ 64 - 1" by simp
      with b len bound False show ?thesis by simp
    qed
  next
    case False
    then have ua: "unat (m_id (heap h ! a)) = a - 1" using other a by simp
    show ?thesis
    proof (cases "b = 0")
      case True
      with u root ua have "a - 1 = 2 ^ 64 - 1" by simp
      with a len bound False show ?thesis by simp
    next
      case bf: False
      then have "unat (m_id (heap h ! b)) = b - 1" using other b by simp
      with u ua have "a - 1 = b - 1" by simp
      with False bf show ?thesis by simp
    qed
  qed
qed

subsection \<open>Ids, positions and parents\<close>

lemma hinv_m_nodes_nth: "hinv h \<Longrightarrow> i < length (m_nodes h) \<Longrightarrow> m_nodes h ! i = Suc i"
proof -
  assume inv: "hinv h" and i: "i < length (m_nodes h)"
  have a: "m_nodes h = [1..<length (heap h)]" using inv by (simp add: hinv_def)
  have "i < length [1..<length (heap h)]" using i a by simp
  then have "[1..<length (heap h)] ! i = 1 + i" by (simp del: upt_Suc)
  then show ?thesis using a by simp
qed

lemma hinv_parent:
  assumes inv: "hinv h" and a: "0 < a" "a < length (heap h)"
  shows "\<exists>p<a. tree_parent (heap h ! a) = Some p"
  using assms by (simp add: hinv_def)

text \<open>
  Claim C1, as amended. On an interner reached from the constructor by calls of \<open>get_id\<close>,
  take a call with path \<open>p\<close> and column \<open>c\<close> and any later call with path \<open>q\<close> and column
  \<open>d\<close>. As long as the number of nodes fits the 64-bit id type, the two calls return the
  same id if and only if \<open>p\<close> and \<open>q\<close> carry the same label sequence. The columns take no
  part: the child scan compares labels only.
\<close>

theorem get_id_same_iff_same_labels:
  assumes r: "reachable h" and ev: "evolves (snd (get_id h p c)) h'"
    and bound: "length (m_nodes (snd (get_id h' q d))) < 2 ^ 64"
  shows "fst (get_id h p c) = fst (get_id h' q d) \<longleftrightarrow> map label_of p = map label_of q"
proof -
  let ?h1 = "snd (get_id h p c)" and ?h2 = "snd (get_id h' q d)"
  have inv: "hinv h" using r by (rule reachable_hinv)
  from get_id_props [OF inv, of p c] obtain n1 where
    inv1: "hinv ?h1" and n1: "n1 < length (heap ?h1)"
    and w1: "walk (heap ?h1) 0 (map label_of p) = Some n1"
    and i1: "fst (get_id h p c) = m_id (heap ?h1 ! n1)" by blast
  have inv': "hinv h'" and e1: "ext ?h1 h'" using evolves_hinv_ext [OF ev inv1] by simp_all
  from get_id_props [OF inv', of q d] obtain n2 where
    inv2: "hinv ?h2" and e2: "ext h' ?h2" and n2: "n2 < length (heap ?h2)"
    and w2: "walk (heap ?h2) 0 (map label_of q) = Some n2"
    and i2: "fst (get_id h' q d) = m_id (heap ?h2 ! n2)" by blast
  have e12: "ext ?h1 ?h2" using e1 e2 by (rule ext_trans)
  have pos: "0 < length (heap ?h1)" using n1 by (cases "heap ?h1") simp_all
  have w1': "walk (heap ?h2) 0 (map label_of p) = Some n1"
    using ext_walk [OF inv1 e12 pos w1] .
  have id1: "m_id (heap ?h2 ! n1) = m_id (heap ?h1 ! n1)" using e12 n1 by (simp add: ext_def)
  have n1': "n1 < length (heap ?h2)" using e12 n1 by (simp add: ext_def)
  have pos2: "0 < length (heap ?h2)" using n2 by (cases "heap ?h2") simp_all
  show ?thesis
  proof
    assume "fst (get_id h p c) = fst (get_id h' q d)"
    then have "m_id (heap ?h2 ! n1) = m_id (heap ?h2 ! n2)" using i1 i2 id1 by simp
    then have "n1 = n2" using hinv_id_inj [OF inv2 bound n1' n2] by simp
    then show "map label_of p = map label_of q" using walk_inj [OF inv2 pos2 w1'] w2 by simp
  next
    assume "map label_of p = map label_of q"
    then have "n1 = n2" using w1' w2 by simp
    then show "fst (get_id h p c) = fst (get_id h' q d)" using i1 i2 id1 by simp
  qed
qed

text \<open>
  Claim C5. In a reachable interner whose node count fits the id type, every node of
  \<open>m_nodes\<close> has a parent that was created before it: the parent is the synthetic root or
  an earlier element of \<open>m_nodes\<close>. Whenever the parent has a valid id, which is when
  \<open>write_json\<close> exports a parent reference, that id is less than the id of the node.
\<close>

theorem parent_created_before_child:
  assumes r: "reachable h" and bound: "length (m_nodes h) < 2 ^ 64" and i: "i < length (m_nodes h)"
  shows "\<exists>p. tree_parent (heap h ! (m_nodes h ! i)) = Some p \<and>
             (p = m_root h \<or> (\<exists>j<i. p = m_nodes h ! j)) \<and>
             (m_id (heap h ! p) \<noteq> CALI_INV_ID \<longrightarrow> m_id (heap h ! p) < m_id (heap h ! (m_nodes h ! i)))"
proof -
  have inv: "hinv h" using r by (rule reachable_hinv)
  have len: "length (heap h) = Suc (length (m_nodes h))" using inv by (rule hinv_length_m_nodes)
  have a: "m_nodes h ! i = Suc i" using inv i by (rule hinv_m_nodes_nth)
  have ab: "Suc i < length (heap h)" using i len by simp
  from hinv_parent [OF inv _ ab] obtain p where p: "p < Suc i" and par: "tree_parent (heap h ! Suc i) = Some p"
    by auto
  have ua: "unat (m_id (heap h ! Suc i)) = i" using hinv_unat_id [OF inv bound _ ab] by simp
  show ?thesis
  proof (cases "p = 0")
    case True
    then have "m_id (heap h ! p) = CALI_INV_ID" "p = m_root h" using inv by (simp_all add: hinv_def)
    with par a show ?thesis by simp
  next
    case False
    then have pj: "p - 1 < i" "p - 1 < length (m_nodes h)" using p i by simp_all
    have "m_nodes h ! (p - 1) = p" using hinv_m_nodes_nth [OF inv pj(2)] False by simp
    moreover have "unat (m_id (heap h ! p)) = p - 1"
      using hinv_unat_id [OF inv bound _ _, of p] False p ab by simp
    then have "m_id (heap h ! p) < m_id (heap h ! Suc i)" using ua pj by (simp add: word_less_nat_alt)
    ultimately show ?thesis using par a pj(1) by (metis)
  qed
qed

subsection \<open>The exported dictionary\<close>

lemma write_json_prefix: "write_json esc hp node os = os @ write_json esc hp node []"
  by (simp add: write_json_def Let_def split: option.splits)

lemma write_nodes_loop_closed:
  "write_nodes_loop esc hp nodes count os =
     os @ concat (map (\<lambda>(j, node). (if j > 0 then '', '' else '' '') @ write_json esc hp node [])
                      (enumerate count nodes))"
proof (induction nodes arbitrary: count os)
  case Nil
  then show ?case by simp
next
  case (Cons node nodes)
  show ?case
    by (simp add: Cons.IH write_json_prefix [of esc hp node "os @ _"])
qed

lemma hinv_valid_id:
  assumes inv: "hinv h" and bound: "length (m_nodes h) < 2 ^ 64" and a: "0 < a" "a < length (heap h)"
  shows "m_id (heap h ! a) \<noteq> CALI_INV_ID"
proof
  assume "m_id (heap h ! a) = CALI_INV_ID"
  then have "unat (m_id (heap h ! a)) = 2 ^ 64 - 1" by (simp add: unat_CALI_INV_ID)
  then have "a - 1 = 2 ^ 64 - 1" using hinv_unat_id [OF inv bound a] by simp
  moreover have "a - 1 < length (m_nodes h)" using a hinv_length_m_nodes [OF inv] by simp
  ultimately show False using bound by simp
qed

lemma write_json_entry_text:
  assumes inv: "hinv h" and bound: "length (m_nodes h) < 2 ^ 64" and i: "i < length (m_nodes h)"
  shows "\<exists>parent.
           write_json esc (heap h) (m_nodes h ! i) [] =
             entry_text esc (m_label (heap h ! (m_nodes h ! i))) (m_column (heap h ! (m_nodes h ! i))) parent \<and>
           (case parent of
              None \<Rightarrow> tree_parent (heap h ! (m_nodes h ! i)) = Some (m_root h)
            | Some j \<Rightarrow> j < i \<and> tree_parent (heap h ! (m_nodes h ! i)) = Some (m_nodes h ! j))"
proof -
  have len: "length (heap h) = Suc (length (m_nodes h))" using inv by (rule hinv_length_m_nodes)
  have a: "m_nodes h ! i = Suc i" using inv i by (rule hinv_m_nodes_nth)
  have ab: "Suc i < length (heap h)" using i len by simp
  from hinv_parent [OF inv _ ab] obtain p where pb: "p < Suc i"
    and par: "tree_parent (heap h ! Suc i) = Some p" by auto
  have root: "m_root h = 0" "m_id (heap h ! 0) = CALI_INV_ID" using inv by (simp_all add: hinv_def)
  show ?thesis
  proof (cases "p = 0")
    case True
    have "write_json esc (heap h) (Suc i) [] =
            entry_text esc (m_label (heap h ! Suc i)) (m_column (heap h ! Suc i)) None"
      using par True root by (simp add: write_json_def entry_text_def)
    then show ?thesis using par True root a by (intro exI [of _ None]) simp
  next
    case False
    then have p0: "0 < p" by simp
    have pl: "p < length (heap h)" using pb ab by simp
    have valid: "m_id (heap h ! p) \<noteq> CALI_INV_ID" using hinv_valid_id [OF inv bound p0 pl] .
    have u: "unat (m_id (heap h ! p)) = p - 1" using hinv_unat_id [OF inv bound p0 pl] .
    have pj: "p - 1 < i" "p - 1 < length (m_nodes h)" using pb i p0 by simp_all
    have nth: "m_nodes h ! (p - 1) = p" using hinv_m_nodes_nth [OF inv pj(2)] p0 by simp
    have "write_json esc (heap h) (Suc i) [] =
            entry_text esc (m_label (heap h ! Suc i)) (m_column (heap h ! Suc i)) (Some (p - 1))"
      using par valid u by (simp add: write_json_def entry_text_def)
    then show ?thesis using par a pj(1) nth by (intro exI [of _ "Some (p - 1)"]) simp
  qed
qed

text \<open>
  Claim C10. In a reachable interner whose node count fits the id type, the node at
  position \<open>i\<close> of \<open>m_nodes\<close> has id \<open>i\<close>; \<open>write_nodes\<close> writes the nodes in the order of
  \<open>m_nodes\<close>, so the dictionary entry at index \<open>i\<close> is the node with id \<open>i\<close>. The text
  of entry \<open>i\<close> is its label and column and either no parent reference, for a child of the
  synthetic root, or the decimal index \<open>j\<close> of an earlier entry, \<open>j < i\<close>, which is the
  entry of the parent of the node. In terms of the store: every parent with a valid id has
  as id the index of an earlier entry, the entry of that parent.
\<close>

theorem ids_are_positions:
  assumes r: "reachable h" and bound: "length (m_nodes h) < 2 ^ 64"
  shows \<open>(\<forall>i<length (m_nodes h).
            m_id (heap h ! (m_nodes h ! i)) = of_nat i \<and> unat (m_id (heap h ! (m_nodes h ! i))) = i) \<and>
         write_nodes esc h os =
           os @ ''"nodes": [''
              @ concat (map (\<lambda>(i, node). (if i > 0 then '', '' else '' '') @ write_json esc (heap h) node [])
                            (enumerate 0 (m_nodes h)))
              @ '' ]'' \<and>
         (\<forall>i<length (m_nodes h). \<exists>parent.
            write_json esc (heap h) (m_nodes h ! i) [] =
              entry_text esc (m_label (heap h ! (m_nodes h ! i))) (m_column (heap h ! (m_nodes h ! i)))
                parent \<and>
            (case parent of
               None \<Rightarrow> tree_parent (heap h ! (m_nodes h ! i)) = Some (m_root h)
             | Some j \<Rightarrow> j < i \<and> tree_parent (heap h ! (m_nodes h ! i)) = Some (m_nodes h ! j))) \<and>
         (\<forall>i<length (m_nodes h). \<forall>p.
            tree_parent (heap h ! (m_nodes h ! i)) = Some p \<and> m_id (heap h ! p) \<noteq> CALI_INV_ID \<longrightarrow>
            unat (m_id (heap h ! p)) < i \<and> m_nodes h ! unat (m_id (heap h ! p)) = p)\<close>
proof -
  have inv: "hinv h" using r by (rule reachable_hinv)
  have len: "length (heap h) = Suc (length (m_nodes h))" using inv by (rule hinv_length_m_nodes)
  have ids: "m_id (heap h ! (m_nodes h ! i)) = of_nat i \<and> unat (m_id (heap h ! (m_nodes h ! i))) = i"
    if i: "i < length (m_nodes h)" for i
  proof -
    have a: "m_nodes h ! i = Suc i" using inv i by (rule hinv_m_nodes_nth)
    have ab: "Suc i < length (heap h)" using i len by simp
    have "m_id (heap h ! Suc i) = of_nat i" using inv ab by (simp add: hinv_def)
    moreover have "unat (m_id (heap h ! Suc i)) = i" using hinv_unat_id [OF inv bound _ ab] by simp
    ultimately show ?thesis using a by simp
  qed
  have par: "unat (m_id (heap h ! p)) < i \<and> m_nodes h ! unat (m_id (heap h ! p)) = p"
    if i: "i < length (m_nodes h)" and p: "tree_parent (heap h ! (m_nodes h ! i)) = Some p"
      and emitted: "m_id (heap h ! p) \<noteq> CALI_INV_ID" for i p
  proof -
    have a: "m_nodes h ! i = Suc i" using inv i by (rule hinv_m_nodes_nth)
    have ab: "Suc i < length (heap h)" using i len by simp
    from hinv_parent [OF inv _ ab] p a have pb: "p < Suc i" by auto
    have "p \<noteq> 0" using emitted inv by (auto simp: hinv_def)
    then have p0: "0 < p" by simp
    have u: "unat (m_id (heap h ! p)) = p - 1"
      using hinv_unat_id [OF inv bound p0] pb ab by simp
    have "p - 1 < length (m_nodes h)" using pb i p0 by simp
    then have "m_nodes h ! (p - 1) = p" using hinv_m_nodes_nth [OF inv] p0 by simp
    with u pb p0 show ?thesis by simp
  qed
  have wn: \<open>write_nodes esc h os =
           os @ ''"nodes": [''
              @ concat (map (\<lambda>(i, node). (if i > 0 then '', '' else '' '') @ write_json esc (heap h) node [])
                            (enumerate 0 (m_nodes h)))
              @ '' ]''\<close>
    by (simp add: write_nodes_def write_nodes_loop_closed)
  note entries = write_json_entry_text [OF inv bound, of _ esc]
  show ?thesis using ids par wn entries by blast
qed

subsection \<open>The empty path\<close>

lemma get_id_Nil: "get_id h [] column = (m_id (heap h ! m_root h), h)"
  by (simp add: get_id_def)

text \<open>
  Claim C8. On a reachable interner \<open>get_id\<close> of the empty path returns \<open>CALI_INV_ID\<close>, the
  id of the synthetic root, and leaves the interner as it is; \<open>CALI_INV_ID\<close> is not 0; and
  when the path collected for a record is empty, \<open>write_hierarchy_entry\<close> writes \<open>null\<close>.
\<close>

theorem empty_path_is_invalid_id:
  assumes r: "reachable h"
  shows "get_id h [] column = (CALI_INV_ID, h) \<and> CALI_INV_ID \<noteq> 0 \<and>
         (collect_path list path_attrs [] = [] \<longrightarrow>
            write_hierarchy_entry os h list path_attrs column = (os @ ''null'', h))"
proof -
  have inv: "hinv h" using r by (rule reachable_hinv)
  have a: "get_id h [] column = (CALI_INV_ID, h)" using inv by (simp add: get_id_Nil hinv_def)
  have b: "CALI_INV_ID \<noteq> 0" by (simp add: CALI_INV_ID_def)
  have c: "write_hierarchy_entry os h list path_attrs column = (os @ ''null'', h)"
    if "collect_path list path_attrs [] = []"
    using that a by (simp add: write_hierarchy_entry_def)
  show ?thesis using a b c by simp
qed

subsection \<open>The path of a record\<close>

lemma push_if_path_attr_closed:
  "push_if_path_attr node path_attrs path =
     path @ (if Node_attribute node \<in> Attribute_id ` set path_attrs then [Entry_of_node node] else [])"
  by (induction path_attrs) auto

lemma walk_ancestors_closed:
  "walk_ancestors n path_attrs path =
     path @ map Entry_of_node
              (filter (\<lambda>node. Node_attribute node \<in> Attribute_id ` set path_attrs) (ancestor_chain n))"
  by (induction n path_attrs path rule: walk_ancestors.induct)
     (simp_all add: push_if_path_attr_closed)

lemma collect_path_closed:
  "collect_path list path_attrs path = path @ concat (map (kept_chain path_attrs) list)"
  by (induction list arbitrary: path) (simp_all add: walk_ancestors_closed kept_chain_def)

text \<open>
  Claim C2, as amended. \<open>write_hierarchy_entry\<close> walks the node of every entry of the
  record up its ancestor chain, whatever the attribute of the entry itself, and keeps the
  nodes whose attribute is in the column's set. The path it interns is the reverse of all
  that was collected: each kept chain in root-first order, the chains in reverse record
  order. The id of that path is written, or \<open>null\<close> for the invalid id.
\<close>

theorem hierarchy_entry_path:
  "write_hierarchy_entry os h list path_attrs column =
     (let (i, h') = get_id h (concat (rev (map (\<lambda>e. rev (kept_chain path_attrs e)) list))) column
      in (if i \<noteq> CALI_INV_ID then os @ decimal (unat i) else os @ ''null'', h'))"
proof -
  have "rev (collect_path list path_attrs []) =
          concat (rev (map (\<lambda>e. rev (kept_chain path_attrs e)) list))"
    by (simp add: collect_path_closed rev_concat rev_map comp_def)
  then show ?thesis by (simp add: write_hierarchy_entry_def)
qed

subsection \<open>Selection and columns\<close>

text \<open>
  Claim C3, as amended. In mode default or all, when the selection mode of the group-by
  descriptor is \<open>List\<close> (its list may be empty), the explicit names are the group-by names
  followed by the name of each aggregate operation, select-all is false and the path flag is
  that of the group-by descriptor; in mode default or all with any other group-by mode,
  select-all is true and no name is selected. Mode none selects no name and mode list
  exactly the explicit names, select-all false in both.
\<close>

theorem configure_selection:
  "((selection (select spec) = Default \<or> selection (select spec) = All) \<and>
      selection (groupby spec) = ListSelection \<longrightarrow>
        m_attr_names (configure f spec s) =
          selection_list (groupby spec) @ map f (selection_list (aggregate spec)) \<and>
        \<not> m_select_all (configure f spec s) \<and>
        m_select_path (configure f spec s) = use_path (groupby spec)) \<and>
   ((selection (select spec) = Default \<or> selection (select spec) = All) \<and>
      selection (groupby spec) \<noteq> ListSelection \<longrightarrow>
        m_select_all (configure f spec s) \<and> m_attr_names (configure f spec s) = []) \<and>
   (selection (select spec) = NoneSelection \<longrightarrow>
        m_attr_names (configure f spec s) = [] \<and> \<not> m_select_all (configure f spec s)) \<and>
   (selection (select spec) = ListSelection \<longrightarrow>
        m_attr_names (configure f spec s) = selection_list (select spec) \<and>
        \<not> m_select_all (configure f spec s))"
  by (cases "selection (select spec)") (simp_all add: configure_def Let_def)

lemma init_columns_loop_closed:
  "init_columns_loop al attrs columns path =
     (columns @ map (\<lambda>a. make_column (column_title al a) a) (filter (\<lambda>a. \<not> is_nested a) attrs),
      path\<lparr> attributes := attributes path @ filter is_nested attrs \<rparr>)"
  by (induction attrs arbitrary: columns path) (simp_all add: column_title_def Let_def)

lemma init_columns_closed:
  "init_columns s db =
     (let kept = filter (\<lambda>a. \<not> remove_pred s a) (get_all_attributes db)
      in map (\<lambda>a. make_column (column_title (m_aliases s) a) a) (filter (\<lambda>a. \<not> is_nested a) kept)
         @ (if filter is_nested kept \<noteq> []
            then [\<lparr> title = ''path'', attributes = filter is_nested kept, is_hierarchy = True \<rparr>]
            else []))"
  by (simp add: init_columns_def init_columns_loop_closed Let_def)

subsection \<open>The text written by \<open>flush\<close>\<close>

lemma write_hierarchy_entry_prefix:
  "write_hierarchy_entry os h rec attrs column =
     (os @ fst (write_hierarchy_entry [] h rec attrs column),
      snd (write_hierarchy_entry [] h rec attrs column))"
  by (simp add: write_hierarchy_entry_def Let_def case_prod_beta)

lemma write_immediate_loop_prefix:
  "write_immediate_loop esc quote attr_id list os = os @ write_immediate_loop esc quote attr_id list []"
  by (induction list) simp_all

lemma write_immediate_entry_prefix:
  "write_immediate_entry esc os list attr = os @ write_immediate_entry esc [] list attr"
  using write_immediate_loop_prefix [of esc _ _ list os]
  by (simp add: write_immediate_entry_def Let_def)

lemma cell_prefix:
  "(if is_hierarchy c
    then write_hierarchy_entry os h rec (attributes c) (title c)
    else (write_immediate_entry esc os rec (hd (attributes c)), h))
   = (os @ fst (cell esc c rec h), snd (cell esc c rec h))"
  using write_hierarchy_entry_prefix [of os h rec "attributes c" "title c"]
        write_immediate_entry_prefix [of esc os rec "hd (attributes c)"]
  by (simp add: cell_def)

lemma flush_columns_loop_closed:
  "flush_columns_loop esc columns rec colcount (os, h) =
     (os @ row_text colcount (fst (row_cells esc columns rec h)), snd (row_cells esc columns rec h))"
proof (induction columns arbitrary: colcount os h)
  case Nil
  then show ?case by (simp add: row_text_def)
next
  case (Cons c columns)
  show ?case
    by (simp add: Let_def cell_prefix Cons.IH case_prod_beta row_text_def)
qed

lemma flush_records_loop_closed:
  "flush_records_loop esc columns records rowcount (os, h) =
     (os @ data_text rowcount (fst (table_rows esc columns records h)),
      snd (table_rows esc columns records h))"
proof (induction records arbitrary: rowcount os h)
  case Nil
  then show ?case by (simp add: data_text_def)
next
  case (Cons rec records)
  show ?case
    by (simp add: Let_def flush_columns_loop_closed Cons.IH case_prod_beta data_text_def)
qed

lemma write_titles_loop_closed:
  "write_titles_loop esc columns count os = os @ titles_text esc count columns"
  by (induction columns arbitrary: count os) (simp_all add: titles_text_def)

lemma write_column_metadata_loop_prefix:
  "write_column_metadata_loop esc db n os = os @ write_column_metadata_loop esc db n []"
proof (induction n arbitrary: os rule: ancestor_chain.induct)
  case 1
  then show ?case by simp
next
  case (2 i a d parent)
  show ?case
  proof (cases "i \<noteq> CALI_INV_ID")
    case False
    then show ?thesis by simp
  next
    case True
    note ih = "2.IH" [OF True]
    show ?thesis
      using True ih [of os] ih [of "os @ _"] ih [of "_ # _"] by (simp add: Let_def)
  qed
qed

lemma write_column_metadata_prefix:
  "write_column_metadata esc os column db = os @ write_column_metadata esc [] column db"
  using write_column_metadata_loop_prefix [of esc db _ "os @ _"]
        write_column_metadata_loop_prefix [of esc db _ "_ # _"]
  by (simp add: write_column_metadata_def Let_def)

lemma write_column_metadata_all_closed:
  "write_column_metadata_all esc db columns count os =
     (count + length columns, os @ column_metadata_text esc db columns count)"
proof (induction columns arbitrary: count os)
  case Nil
  then show ?case by (simp add: column_metadata_text_def)
next
  case (Cons c columns)
  let ?sep = "if count > 0 then '' }, { '' else '' { ''"
  have a: "write_column_metadata esc (os @ ?sep) c db = os @ write_column_metadata esc ?sep c db"
    using write_column_metadata_prefix [of esc "os @ ?sep" c db]
          write_column_metadata_prefix [of esc "?sep" c db] by simp
  have ct: "column_metadata_text esc db (c # columns) count =
               write_column_metadata esc ?sep c db @ column_metadata_text esc db columns (Suc count)"
    using Cons.IH [of "Suc count" "write_column_metadata esc ?sep c db"]
    by (simp add: column_metadata_text_def)
  have "write_column_metadata_all esc db (c # columns) count os =
          write_column_metadata_all esc db columns (Suc count) (os @ write_column_metadata esc ?sep c db)"
    using a by simp
  then have "write_column_metadata_all esc db (c # columns) count os =
          (Suc count + length columns,
           (os @ write_column_metadata esc ?sep c db) @ column_metadata_text esc db columns (Suc count))"
    by (simp only: Cons.IH)
  then show ?case by (simp only: ct) simp
qed

lemma write_nodes_prefix: "write_nodes esc h os = os @ nodes_text esc h"
  by (simp add: nodes_text_def write_nodes_def write_nodes_loop_closed)

lemma write_globals_emit_closed:
  "write_globals_emit esc db global_vals os = os @ globals_text esc db global_vals"
  by (induction global_vals arbitrary: os) (simp_all add: globals_text_def)

lemma write_globals_closed:
  "write_globals esc os db = os @ globals_text esc db (write_globals_collect (get_globals db) [])"
  by (simp add: write_globals_def write_globals_emit_closed)

lemma write_metadata_closed:
  \<open>write_metadata esc h db columns os =
     os @ '',\<newline>  "columns": ['' @ titles_text esc 0 columns
        @ '' ],\<newline>  "column_metadata": [''
        @ column_metadata_text esc db columns 0 @ (if columns \<noteq> [] then '' } '' else [])
        @ '' ],\<newline>  '' @ nodes_text esc h
        @ globals_text esc db (write_globals_collect (get_globals db) [])\<close>
  by (simp add: write_metadata_def Let_def write_titles_loop_closed write_globals_closed
        write_column_metadata_all_closed write_nodes_prefix)

lemma flush_closed:
  \<open>flush esc db s os =
     (let columns = init_columns s db;
          table = table_rows esc columns (m_records s) (m_hierarchy s)
      in (os @ ''{\<newline>  "data": ['' @ data_text 0 (fst table) @ ''\<newline>  ]''
             @ '',\<newline>  "columns": ['' @ titles_text esc 0 columns
             @ '' ],\<newline>  "column_metadata": [''
             @ column_metadata_text esc db columns 0 @ (if columns \<noteq> [] then '' } '' else [])
             @ '' ],\<newline>  '' @ nodes_text esc (snd table)
             @ globals_text esc db (write_globals_collect (get_globals db) [])
             @ ''\<newline>}\<newline>'',
          s\<lparr> m_hierarchy := snd table \<rparr>))\<close>
  by (simp add: flush_def Let_def flush_records_loop_closed write_metadata_closed)

subsection \<open>Rows of the document\<close>

lemma process_records_fold:
  "foldl (\<lambda>s r. process_record db r s) s0 recs = s0\<lparr> m_records := m_records s0 @ recs \<rparr>"
  by (induction recs arbitrary: s0) (simp_all add: process_record_def)

lemma new_JsonSplitFormatter_fields:
  "m_records (new_JsonSplitFormatter f spec u) = [] \<and>
   m_hierarchy (new_JsonSplitFormatter f spec u) = Hierarchy_init"
  by (cases "selection (select spec)")
     (simp_all add: new_JsonSplitFormatter_def configure_def new_JsonSplitFormatterImpl_def Let_def)

lemma row_cells_length: "length (fst (row_cells esc columns rec h)) = length columns"
  by (induction columns arbitrary: h) (simp_all add: case_prod_beta)

lemma row_cells_nth:
  "j < length columns \<Longrightarrow>
     fst (row_cells esc columns rec h) ! j =
       fst (cell esc (columns ! j) rec (snd (row_cells esc (take j columns) rec h)))"
proof (induction columns arbitrary: h j)
  case Nil
  then show ?case by simp
next
  case (Cons c columns)
  show ?case
  proof (cases j)
    case 0
    then show ?thesis by (simp add: case_prod_beta)
  next
    case (Suc k)
    then have "k < length columns" using Cons.prems by simp
    from Cons.IH [OF this] Suc show ?thesis by (simp add: case_prod_beta)
  qed
qed

lemma table_rows_length: "length (fst (table_rows esc columns records h)) = length records"
  by (induction records arbitrary: h) (simp_all add: case_prod_beta)

lemma table_rows_nth:
  "r < length records \<Longrightarrow>
     fst (table_rows esc columns records h) ! r =
       fst (row_cells esc columns (records ! r) (snd (table_rows esc columns (take r records) h)))"
proof (induction records arbitrary: h r)
  case Nil
  then show ?case by simp
next
  case (Cons rec records)
  show ?case
  proof (cases r)
    case 0
    then show ?thesis by (simp add: case_prod_beta)
  next
    case (Suc k)
    then have "k < length records" using Cons.prems by simp
    from Cons.IH [OF this] Suc show ?thesis by (simp add: case_prod_beta)
  qed
qed

lemma flush_data_metadata:
  \<open>fst (flush esc db s os) =
     os @ ''{\<newline>  "data": [''
        @ data_text 0 (fst (table_rows esc (init_columns s db) (m_records s) (m_hierarchy s)))
        @ ''\<newline>  ]''
        @ metadata_text esc (snd (table_rows esc (init_columns s db) (m_records s) (m_hierarchy s))) db
            (init_columns s db)
        @ ''\<newline>}\<newline>''\<close>
  by (simp add: flush_closed Let_def metadata_text_def write_metadata_closed)

text \<open>
  Claim C9. After the constructor and the calls \<open>process_record\<close> for the records \<open>recs\<close>,
  taken in the order in which they held the buffer lock, the buffer is \<open>recs\<close>; the data
  array that \<open>flush\<close> writes has one row for each of them, and row \<open>r\<close> holds the cells of
  record \<open>r\<close>, written with the interner as the rows before it left it.
\<close>

theorem rows_match_process_record_calls:
  assumes s: "s = foldl (\<lambda>s r. process_record db r s) (new_JsonSplitFormatter f spec u) recs"
    and t: "table = fst (table_rows esc (init_columns s db) (m_records s) (m_hierarchy s))"
  shows \<open>m_records s = recs \<and> length table = length recs \<and>
         (\<forall>r<length recs.
            table ! r = fst (row_cells esc (init_columns s db) (recs ! r)
                               (snd (table_rows esc (init_columns s db) (take r recs) Hierarchy_init)))) \<and>
         fst (flush esc db s os) =
            os @ ''{\<newline>  "data": ['' @ data_text 0 table @ ''\<newline>  ]''
               @ metadata_text esc (snd (table_rows esc (init_columns s db) recs Hierarchy_init)) db
                   (init_columns s db)
               @ ''\<newline>}\<newline>''\<close>
proof -
  have recs: "m_records s = recs" and h: "m_hierarchy s = Hierarchy_init"
    using new_JsonSplitFormatter_fields [of f spec u] by (simp_all add: s process_records_fold)
  have len: "length table = length recs" by (simp add: t recs table_rows_length)
  have nth: "table ! r = fst (row_cells esc (init_columns s db) (recs ! r)
                               (snd (table_rows esc (init_columns s db) (take r recs) Hierarchy_init)))"
    if "r < length recs" for r
    using table_rows_nth [OF that, of esc "init_columns s db" Hierarchy_init] by (simp add: t recs h)
  have doc: \<open>fst (flush esc db s os) =
            os @ ''{\<newline>  "data": ['' @ data_text 0 table @ ''\<newline>  ]''
               @ metadata_text esc (snd (table_rows esc (init_columns s db) recs Hierarchy_init)) db
                   (init_columns s db)
               @ ''\<newline>}\<newline>''\<close>
    using flush_data_metadata [of esc db s os] by (simp add: t recs h)
  show ?thesis using recs len nth doc by blast
qed

text \<open>
  Claim C4. \<open>init_columns\<close> returns one column for each kept attribute that is not nested,
  in the order of \<open>get_all_attributes\<close> and titled by the alias of its name if there is
  one, followed by the column \<open>path\<close> of the kept nested attributes if there is any. The
  title array of the document lists the titles of these columns in this order, and each
  row has one cell per column in this order: cell \<open>j\<close> is written for column \<open>j\<close>.
\<close>

theorem column_order:
  \<open>init_columns s db =
     (let kept = filter (\<lambda>a. \<not> remove_pred s a) (get_all_attributes db)
      in map (\<lambda>a. make_column (column_title (m_aliases s) a) a) (filter (\<lambda>a. \<not> is_nested a) kept)
         @ (if filter is_nested kept \<noteq> []
            then [\<lparr> title = ''path'', attributes = filter is_nested kept, is_hierarchy = True \<rparr>]
            else [])) \<and>
   (\<exists>rest. fst (flush esc db s os) =
      os @ ''{\<newline>  "data": [''
         @ data_text 0 (fst (table_rows esc (init_columns s db) (m_records s) (m_hierarchy s)))
         @ ''\<newline>  ]'' @ '',\<newline>  "columns": ['' @ titles_text esc 0 (init_columns s db)
         @ '' ],\<newline>  "column_metadata": ['' @ rest) \<and>
   length (fst (row_cells esc (init_columns s db) rec h)) = length (init_columns s db) \<and>
   (\<forall>j<length (init_columns s db).
      fst (row_cells esc (init_columns s db) rec h) ! j =
        fst (cell esc (init_columns s db ! j) rec (snd (row_cells esc (take j (init_columns s db)) rec h))))\<close>
proof -
  have d: \<open>\<exists>rest. fst (flush esc db s os) =
      os @ ''{\<newline>  "data": [''
         @ data_text 0 (fst (table_rows esc (init_columns s db) (m_records s) (m_hierarchy s)))
         @ ''\<newline>  ]'' @ '',\<newline>  "columns": ['' @ titles_text esc 0 (init_columns s db)
         @ '' ],\<newline>  "column_metadata": ['' @ rest\<close>
    by (simp add: flush_closed Let_def)
  show ?thesis
    using init_columns_closed [of s db] d row_cells_length [of esc "init_columns s db" rec h]
      row_cells_nth [of _ "init_columns s db" esc rec h]
    by blast
qed

subsection \<open>Value cells\<close>

lemma write_immediate_loop_closed:
  \<open>write_immediate_loop esc quote attr_id list os =
     os @ (case find (\<lambda>e. Entry_attribute e = attr_id) list of
             None \<Rightarrow> ''null''
           | Some e \<Rightarrow> if quote then ''"'' @ esc (to_string (Entry_value e)) @ ''"''
                       else to_string (Entry_value e))\<close>
  by (induction list) simp_all

lemma write_immediate_entry_closed:
  "write_immediate_entry esc os rec attr = os @ claimed_value_cell esc rec attr"
  by (simp add: write_immediate_entry_def write_immediate_loop_closed claimed_value_cell_def Let_def
           split: option.splits)

lemma init_columns_value_column:
  assumes "c \<in> set (init_columns s db)" "\<not> is_hierarchy c"
  shows "\<exists>a. attributes c = [a] \<and> store_as_value a \<and> \<not> is_nested a"
  using assms by (auto simp: init_columns_closed Let_def make_column_def split: if_splits)

text \<open>
  Claim C7, as amended. \<open>write_immediate_entry\<close> writes the text of the first entry with
  the attribute of the column: as it is when the type of the attribute is int, uint or
  double, between quotes and passed through \<open>write_esc_string\<close> otherwise, and \<open>null\<close>
  when no entry matches. \<open>flush\<close> writes the cell in this way for the columns that are not
  marked as hierarchy, which are the columns of attributes stored as value.
\<close>

theorem value_cell:
  "write_immediate_entry esc os rec attr = os @ claimed_value_cell esc rec attr \<and>
   (c \<in> set (init_columns s db) \<and> \<not> is_hierarchy c \<longrightarrow>
      (\<exists>a. attributes c = [a] \<and> store_as_value a \<and> \<not> is_nested a \<and>
           cell esc c rec h = (claimed_value_cell esc rec a, h)))"
proof -
  have "\<exists>a. attributes c = [a] \<and> store_as_value a \<and> \<not> is_nested a \<and>
           cell esc c rec h = (claimed_value_cell esc rec a, h)"
    if c: "c \<in> set (init_columns s db)" "\<not> is_hierarchy c"
  proof -
    from init_columns_value_column [OF c] obtain a where
      a: "attributes c = [a]" "store_as_value a" "\<not> is_nested a" by blast
    have "cell esc c rec h = (claimed_value_cell esc rec a, h)"
      using c(2) a(1) write_immediate_entry_closed [of esc "[]" rec a] by (simp add: cell_def)
    with a show ?thesis by blast
  qed
  then show ?thesis using write_immediate_entry_closed [of esc os rec attr] by blast
qed

subsection \<open>Merged globals\<close>

lemma map_of_map_assign: "map_of (map_assign k v m) = (map_of m)(k \<mapsto> v)"
  by (induction m) (auto simp: fun_eq_iff)

lemma map_index_map_assign:
  "map_index (map_assign k v m) k' = (if k' = k then v else map_index m k')"
  by (simp add: map_index_def map_of_map_assign)

lemma keys_map_assign: "fst ` set (map_assign k v m) = insert k (fst ` set m)"
proof (induction m)
  case Nil
  then show ?case by simp
next
  case (Cons p m)
  obtain k' v' where p: "p = (k', v')" by (cases p)
  show ?case using Cons.IH by (simp add: p insert_commute)
qed

lemma sorted_map_assign:
  "sorted_wrt (<) (map fst m) \<Longrightarrow> sorted_wrt (<) (map fst (map_assign k v m))"
proof (induction m)
  case Nil
  then show ?case by simp
next
  case (Cons p m)
  obtain k' v' where p: "p = (k', v')" by (cases p)
  have keys: "fst ` set (map_assign k v m) = insert k (fst ` set m)" by (rule keys_map_assign)
  show ?case
  proof (cases "k < k'")
    case True
    then show ?thesis using Cons.prems p by auto
  next
    case False
    show ?thesis
    proof (cases "k = k'")
      case True
      then show ?thesis using Cons.prems p by simp
    next
      case ne: False
      with False have lt: "k' < k" by simp
      have "\<forall>x\<in>set (map_assign k v m). k' < fst x"
        using keys Cons.prems p lt by (metis (no_types, lifting) image_eqI insert_iff list.set_map
            sorted_wrt.simps(2) list.simps(9) fst_conv)
      then show ?thesis using Cons.IH Cons.prems p False ne by simp
    qed
  qed
qed

lemma walk_index:
  "map_index (write_globals_walk n gv) k =
     foldl prepend_value (map_index gv k) (values_of k (ancestor_chain n))"
proof (induction n arbitrary: gv rule: ancestor_chain.induct)
  case 1
  then show ?case by (simp add: values_of_def)
next
  case (2 i a d parent)
  show ?case
  proof (cases "i \<noteq> CALI_INV_ID")
    case False
    then show ?thesis by (simp add: values_of_def)
  next
    case True
    show ?thesis
      using True "2.IH" [OF True]
      by (simp add: Let_def values_of_def map_index_map_assign prepend_value_def)
  qed
qed

lemma walk_keys:
  "fst ` set (write_globals_walk n gv) = fst ` set gv \<union> Node_attribute ` set (ancestor_chain n)"
proof (induction n arbitrary: gv rule: ancestor_chain.induct)
  case 1
  then show ?case by simp
next
  case (2 i a d parent)
  show ?case
  proof (cases "i \<noteq> CALI_INV_ID")
    case False
    then show ?thesis by simp
  next
    case True
    show ?thesis
      using True "2.IH" [OF True] by (simp add: Let_def keys_map_assign)
  qed
qed

lemma walk_sorted:
  "sorted_wrt (<) (map fst gv) \<Longrightarrow> sorted_wrt (<) (map fst (write_globals_walk n gv))"
proof (induction n arbitrary: gv rule: ancestor_chain.induct)
  case 1
  then show ?case by simp
next
  case (2 i a d parent)
  show ?case
  proof (cases "i \<noteq> CALI_INV_ID")
    case False
    then show ?thesis using "2.prems" by simp
  next
    case True
    show ?thesis
      using True "2.IH" [OF True sorted_map_assign [OF "2.prems"]] by (simp add: Let_def)
  qed
qed

lemma collect_sorted:
  "sorted_wrt (<) (map fst gv) \<Longrightarrow> sorted_wrt (<) (map fst (write_globals_collect globals gv))"
  by (induction globals arbitrary: gv) (simp_all add: walk_sorted sorted_map_assign)

lemma collect_append:
  "write_globals_collect (gs @ gs') gv = write_globals_collect gs' (write_globals_collect gs gv)"
  by (induction gs arbitrary: gv) simp_all

lemma collect_reference_index:
  "\<forall>e\<in>set globals. \<not> is_reference e \<longrightarrow> Entry_attribute e \<noteq> k \<Longrightarrow>
     map_index (write_globals_collect globals gv) k =
       foldl prepend_value (map_index gv k) (values_of k (visited_nodes globals))"
proof (induction globals arbitrary: gv)
  case Nil
  then show ?case by (simp add: values_of_def visited_nodes_def)
next
  case (Cons e globals)
  show ?case
  proof (cases "is_reference e")
    case True
    have "values_of k (visited_nodes (e # globals)) =
            values_of k (ancestor_chain (Entry_node e)) @ values_of k (visited_nodes globals)"
      using True by (simp add: values_of_def visited_nodes_def)
    then show ?thesis using Cons True by (simp add: walk_index)
  next
    case False
    have "values_of k (visited_nodes (e # globals)) = values_of k (visited_nodes globals)"
      using False by (simp add: values_of_def visited_nodes_def)
    then show ?thesis using Cons False by (auto simp: map_index_map_assign)
  qed
qed

lemma collect_keys:
  "fst ` set (write_globals_collect globals gv) =
     fst ` set gv \<union> Node_attribute ` set (visited_nodes globals)
       \<union> Entry_attribute ` {e \<in> set globals. \<not> is_reference e}"
proof (induction globals arbitrary: gv)
  case Nil
  then show ?case by (simp add: visited_nodes_def)
next
  case (Cons e globals)
  show ?case
  proof (cases "is_reference e")
    case True
    have "{x \<in> set (e # globals). \<not> is_reference x} = {x \<in> set globals. \<not> is_reference x}"
      using True by auto
    then show ?thesis
      using True Cons.IH [of "write_globals_walk (Entry_node e) gv"]
      by (simp add: walk_keys visited_nodes_def image_Un Un_assoc)
  next
    case False
    have "{x \<in> set (e # globals). \<not> is_reference x} = insert e {x \<in> set globals. \<not> is_reference x}"
      using False by auto
    then show ?thesis
      using False Cons.IH [of "map_assign (Entry_attribute e) (to_string (Entry_value e)) gv"]
      by (simp add: keys_map_assign visited_nodes_def Un_assoc insert_commute)
  qed
qed

lemma collect_untouched:
  "\<forall>e\<in>set globals. k \<notin> touched e \<Longrightarrow>
     map_index (write_globals_collect globals gv) k = map_index gv k"
proof (induction globals arbitrary: gv)
  case Nil
  then show ?case by simp
next
  case (Cons e globals)
  have "map_index (if is_reference e then write_globals_walk (Entry_node e) gv
                   else map_assign (Entry_attribute e) (to_string (Entry_value e)) gv) k
        = map_index gv k"
  proof (cases "is_reference e")
    case True
    then have "k \<notin> Node_attribute ` set (ancestor_chain (Entry_node e))"
      using Cons.prems by (simp add: touched_def)
    then have "values_of k (ancestor_chain (Entry_node e)) = []"
      by (auto simp: values_of_def filter_empty_conv)
    then show ?thesis using True by (simp add: walk_index)
  next
    case False
    then show ?thesis using Cons.prems by (simp add: touched_def map_index_map_assign)
  qed
  then show ?case using Cons by simp
qed

lemma join_append:
  "xs \<noteq> [] \<Longrightarrow> ys \<noteq> [] \<Longrightarrow> join sep (xs @ ys) = join sep xs @ sep @ join sep ys"
  by (induction xs) auto

lemma foldl_prepend_join:
  "\<forall>v\<in>set vs. v \<noteq> [] \<Longrightarrow>
     foldl prepend_value acc vs = join ''/'' (rev vs @ (if acc = [] then [] else [acc]))"
proof (induction vs arbitrary: acc)
  case Nil
  then show ?case by simp
next
  case (Cons v vs)
  have v: "v \<noteq> []" using Cons.prems by simp
  have ne: "prepend_value acc v \<noteq> []" using v by (simp add: prepend_value_def)
  have "foldl prepend_value acc (v # vs) = join ''/'' (rev vs @ [prepend_value acc v])"
    using Cons.IH [of "prepend_value acc v"] Cons.prems ne by simp
  also have "\<dots> = join ''/'' (rev (v # vs) @ (if acc = [] then [] else [acc]))"
  proof (cases "acc = []")
    case True
    then show ?thesis by (simp add: prepend_value_def)
  next
    case False
    have "join ''/'' (rev vs @ [v @ ''/'' @ acc]) = join ''/'' ((rev vs @ [v]) @ [acc])"
      by (cases "rev vs = []") (simp_all add: join_append)
    then show ?thesis using False by (simp add: prepend_value_def)
  qed
  finally show ?case .
qed

lemmas ex_defs = ex_function_def ex_loop_def ex_duration_def ex_phase_def ex_build_def
  ex_mode_def ex_main_def ex_foo_def ex_bar_def ex_outer_def ex_x_def ex_y_def ex_db_def ex_spec_def
  ex_aggregate_name_def

text \<open>
  Claim C6, as amended. Every visited node puts its value in front of what its attribute
  has so far, with a slash between. So for an attribute \<open>k\<close> that no immediate global
  entry carries and whose values are not empty, the merged value is the slash-joined list
  of the values of the visited nodes of attribute \<open>k\<close> in reverse order of the visits:
  ancestors before descendants within one entry, later entries before earlier ones. An
  immediate global entry is taken as it is when no later entry has its attribute. The map
  holds each attribute once, in ascending order of the ids, and its name/value pairs are
  the last thing in the document before the closing brace.
\<close>

theorem globals_merge:
  \<open>((\<forall>e\<in>set (get_globals db). \<not> is_reference e \<longrightarrow> Entry_attribute e \<noteq> k) \<and>
     (\<forall>v\<in>set (values_of k (visited_nodes (get_globals db))). v \<noteq> []) \<longrightarrow>
       map_index (write_globals_collect (get_globals db) []) k =
         join ''/'' (rev (values_of k (visited_nodes (get_globals db))))) \<and>
    (get_globals db = gs @ e # gs' \<and> \<not> is_reference e \<and>
     (\<forall>e'\<in>set gs'. Entry_attribute e \<notin> touched e') \<longrightarrow>
       map_index (write_globals_collect (get_globals db) []) (Entry_attribute e) =
         to_string (Entry_value e)) \<and>
    sorted_wrt (<) (map fst (write_globals_collect (get_globals db) [])) \<and>
    fst ` set (write_globals_collect (get_globals db) []) =
       Node_attribute ` set (visited_nodes (get_globals db))
         \<union> Entry_attribute ` {e \<in> set (get_globals db). \<not> is_reference e} \<and>
    (\<exists>before. fst (flush esc db s os) =
       before @ globals_text esc db (write_globals_collect (get_globals db) []) @ ''\<newline>}\<newline>'')\<close>
proof -
  let ?gm = "write_globals_collect (get_globals db) []"
  have a: "map_index ?gm k = join ''/'' (rev (values_of k (visited_nodes (get_globals db))))"
    if refs: "\<forall>e\<in>set (get_globals db). \<not> is_reference e \<longrightarrow> Entry_attribute e \<noteq> k"
      and ne: "\<forall>v\<in>set (values_of k (visited_nodes (get_globals db))). v \<noteq> []"
    using foldl_prepend_join [OF ne, of "[]"] collect_reference_index [OF refs, of "[]"]
    by (simp add: map_index_def)
  have b: "map_index ?gm (Entry_attribute e) = to_string (Entry_value e)"
    if g: "get_globals db = gs @ e # gs'" and imm: "\<not> is_reference e"
      and un: "\<forall>e'\<in>set gs'. Entry_attribute e \<notin> touched e'"
  proof -
    have "?gm = write_globals_collect gs' (write_globals_collect [e] (write_globals_collect gs []))"
      using collect_append [of gs "e # gs'" "[]"] collect_append [of "[e]" gs'] by (simp add: g)
    then show ?thesis using imm collect_untouched [OF un] by (simp add: map_index_map_assign)
  qed
  have c: "sorted_wrt (<) (map fst ?gm)" by (rule collect_sorted) simp
  have k: "fst ` set ?gm = Node_attribute ` set (visited_nodes (get_globals db))
         \<union> Entry_attribute ` {e \<in> set (get_globals db). \<not> is_reference e}"
    using collect_keys [of "get_globals db" "[]"] by simp
  have d: \<open>\<exists>before. fst (flush esc db s os) = before @ globals_text esc db ?gm @ ''\<newline>}\<newline>''\<close>
  proof -
    have \<open>fst (flush esc db s os) =
       (os @ ''{\<newline>  "data": [''
           @ data_text 0 (fst (table_rows esc (init_columns s db) (m_records s) (m_hierarchy s)))
           @ ''\<newline>  ]'' @ '',\<newline>  "columns": ['' @ titles_text esc 0 (init_columns s db)
           @ '' ],\<newline>  "column_metadata": [''
           @ column_metadata_text esc db (init_columns s db) 0
           @ (if init_columns s db \<noteq> [] then '' } '' else [])
           @ '' ],\<newline>  ''
           @ nodes_text esc (snd (table_rows esc (init_columns s db) (m_records s) (m_hierarchy s))))
       @ globals_text esc db ?gm @ ''\<newline>}\<newline>''\<close>
      by (simp add: flush_closed Let_def)
    then show ?thesis by blast
  qed
  show ?thesis using a b c k d by blast
qed

text \<open>
  Claim C6 as stated fails: two global reference entries of the same attribute with the
  values \<open>x\<close> and \<open>y\<close>, declared in this order, merge to \<open>y/x\<close>, while the join in
  declaration order is \<open>x/y\<close>.
\<close>

theorem globals_order_counterexample:
  "map_index (write_globals_collect [Entry_of_node ex_x, Entry_of_node ex_y] []) 30 = ''y/x'' \<and>
   join ''/'' (map label_of [Entry_of_node ex_x, Entry_of_node ex_y]) = ''x/y''"
  by (simp add: ex_defs Entry_of_node_def label_of_def map_index_def CALI_INV_ID_def)

lemmas ex2_defs = ex_path_foo_def ex_path_bar_def ex_record1_def ex_record2_def ex_formatter_def

lemma ex_h1_value:
  "ex_h1 = \<lparr> heap = [\<lparr> tree_parent = None, tree_children = [1], m_id = CALI_INV_ID, m_label = [], m_column = [] \<rparr>,
                     \<lparr> tree_parent = Some 0, tree_children = [2], m_id = 0, m_label = ''main'', m_column = ''path'' \<rparr>,
                     \<lparr> tree_parent = Some 1, tree_children = [], m_id = 1, m_label = ''foo'', m_column = ''path'' \<rparr>],
             m_root = 0, m_nodes = [1, 2] \<rparr>"
  by (simp add: ex_h1_def ex_defs ex2_defs get_id_def Hierarchy_init_def create_node_def tree_append_def
        new_HierarchyNode_def Entry_of_node_def)

subsection \<open>The properties on the example data\<close>

lemma decimal_0: "decimal 0 = ''0''" by code_simp
lemma decimal_1: "decimal (Suc 0) = ''1''" by code_simp

lemma reachable_init: "reachable Hierarchy_init"
  by (simp add: reachable_def evolves_refl)

lemma reachable_ex_h1: "reachable ex_h1"
  unfolding reachable_def ex_h1_def by (rule evolves_step [OF evolves_refl])

text \<open>
  Claim C1 on the example: after \<open>main/foo\<close> was interned, \<open>main/bar\<close> gets another id and
  \<open>main/foo\<close> the same id again.
\<close>

theorem get_id_same_iff_same_labels_witness:
  "reachable Hierarchy_init \<and> evolves ex_h1 ex_h1 \<and>
   length (m_nodes (snd (get_id ex_h1 ex_path_bar ''path''))) < 2 ^ 64 \<and>
   fst (get_id Hierarchy_init ex_path_foo ''path'') \<noteq> fst (get_id ex_h1 ex_path_bar ''path'') \<and>
   fst (get_id Hierarchy_init ex_path_foo ''path'') = fst (get_id ex_h1 ex_path_foo ''path'')"
proof -
  have e: "evolves (snd (get_id Hierarchy_init ex_path_foo ''path'')) ex_h1"
    unfolding ex_h1_def by (rule evolves_refl)
  have b1: "length (m_nodes (snd (get_id ex_h1 ex_path_bar ''path''))) < 2 ^ 64"
    by (simp add: ex_h1_value ex_defs ex2_defs get_id_def create_node_def tree_append_def
          new_HierarchyNode_def Entry_of_node_def)
  have b2: "length (m_nodes (snd (get_id ex_h1 ex_path_foo ''path''))) < 2 ^ 64"
    by (simp add: ex_h1_value ex_defs ex2_defs get_id_def create_node_def tree_append_def
          new_HierarchyNode_def Entry_of_node_def)
  have l: "map label_of ex_path_foo \<noteq> map label_of ex_path_bar"
    by (simp add: ex_defs ex2_defs label_of_def Entry_of_node_def)
  show ?thesis
    using get_id_same_iff_same_labels [OF reachable_init e b1]
          get_id_same_iff_same_labels [OF reachable_init e b2] l b1 reachable_init e
    by (simp add: ex_h1_def)
qed

text \<open>
  Claim C1 as stated fails: the paths with the single label \<open>main\<close> in the columns
  \<open>function\<close> and \<open>loop\<close> differ in the column, and \<open>get_id\<close> returns the same id for both.
\<close>

theorem get_id_column_counterexample:
  "''function'' \<noteq> ''loop'' \<and>
   fst (get_id Hierarchy_init [Entry_of_node ex_main] ''function'') =
   fst (get_id (snd (get_id Hierarchy_init [Entry_of_node ex_main] ''function''))
          [Entry_of_node ex_main] ''loop'')"
  by (simp add: ex_defs get_id_def Hierarchy_init_def create_node_def tree_append_def
        new_HierarchyNode_def Entry_of_node_def)

text \<open>Claim C5 on the example: \<open>foo\<close> has the parent \<open>main\<close>, with the smaller id.\<close>

theorem parent_created_before_child_witness:
  "reachable ex_h1 \<and> length (m_nodes ex_h1) < 2 ^ 64 \<and> 1 < length (m_nodes ex_h1) \<and>
   tree_parent (heap ex_h1 ! (m_nodes ex_h1 ! 1)) = Some (m_nodes ex_h1 ! 0) \<and>
   m_id (heap ex_h1 ! (m_nodes ex_h1 ! 0)) < m_id (heap ex_h1 ! (m_nodes ex_h1 ! 1))"
proof -
  have b: "length (m_nodes ex_h1) < 2 ^ 64" and i: "1 < length (m_nodes ex_h1)"
    by (simp_all add: ex_h1_value)
  from parent_created_before_child [OF reachable_ex_h1 b i]
  show ?thesis using reachable_ex_h1 by (simp add: ex_h1_value CALI_INV_ID_def)
qed

text \<open>
  Claim C10 on the example: the node at position 1 of \<open>m_nodes\<close> has id 1, and the
  dictionary lists \<open>main\<close> without a parent and \<open>foo\<close> with the parent 0.
\<close>

theorem ids_are_positions_witness:
  \<open>reachable ex_h1 \<and> length (m_nodes ex_h1) < 2 ^ 64 \<and>
   m_id (heap ex_h1 ! (m_nodes ex_h1 ! 1)) = 1 \<and>
   unat (m_id (heap ex_h1 ! (m_nodes ex_h1 ! 1))) = 1 \<and>
   write_json id (heap ex_h1) (m_nodes ex_h1 ! 1) [] = ''{ "label": "foo", "column": "path", "parent": 0 }'' \<and>
   write_json id (heap ex_h1) (m_nodes ex_h1 ! 0) [] = ''{ "label": "main", "column": "path" }'' \<and>
   write_nodes id ex_h1 [] =
     ''"nodes": [ { "label": "main", "column": "path" }, { "label": "foo", "column": "path", "parent": 0 } ]''\<close>
proof -
  have b: "length (m_nodes ex_h1) < 2 ^ 64" by (simp add: ex_h1_value)
  have d: "decimal (unat (0 :: cali_id_t)) = ''0''" by code_simp
  have i: "(0 :: cali_id_t) \<noteq> CALI_INV_ID" by (simp add: CALI_INV_ID_def)
  have j0: \<open>write_json id (heap ex_h1) (m_nodes ex_h1 ! 0) [] = ''{ "label": "main", "column": "path" }''\<close>
    by (simp add: ex_h1_value write_json_def)
  have j1: \<open>write_json id (heap ex_h1) (m_nodes ex_h1 ! 1) [] = ''{ "label": "foo", "column": "path", "parent": 0 }''\<close>
    by (simp add: ex_h1_value write_json_def d i del: unsigned_0)
  from ids_are_positions [OF reachable_ex_h1 b, of id "[]"]
  have ids: "m_id (heap ex_h1 ! (m_nodes ex_h1 ! 1)) = 1" "unat (m_id (heap ex_h1 ! (m_nodes ex_h1 ! 1))) = 1"
    and wn: \<open>write_nodes id ex_h1 [] =
           [] @ ''"nodes": [''
              @ concat (map (\<lambda>(i, node). (if i > 0 then '', '' else '' '') @ write_json id (heap ex_h1) node [])
                            (enumerate 0 (m_nodes ex_h1)))
              @ '' ]''\<close>
    using b by (simp_all add: ex_h1_value)
  have mn: "m_nodes ex_h1 = [m_nodes ex_h1 ! 0, m_nodes ex_h1 ! 1]" by (simp add: ex_h1_value)
  have wn': \<open>write_nodes id ex_h1 [] =
     ''"nodes": [ { "label": "main", "column": "path" }, { "label": "foo", "column": "path", "parent": 0 } ]''\<close>
    by (subst wn, subst mn) (simp add: j0 j1 [unfolded One_nat_def])
  show ?thesis by (intro conjI) (fact reachable_ex_h1 b ids j0 j1 wn')+
qed

text \<open>
  Claim C8 on the example: a record without a node of the column's attribute gives the
  empty path and the cell \<open>null\<close>.
\<close>

theorem empty_path_is_invalid_id_witness:
  "reachable Hierarchy_init \<and>
   get_id Hierarchy_init [] ''path'' = (CALI_INV_ID, Hierarchy_init) \<and>
   collect_path [Entry_immediate 22 (Variant ''1.5'')] [ex_function] [] = [] \<and>
   write_hierarchy_entry [] Hierarchy_init [Entry_immediate 22 (Variant ''1.5'')] [ex_function] ''path''
     = (''null'', Hierarchy_init)"
proof -
  have c: "collect_path [Entry_immediate 22 (Variant ''1.5'')] [ex_function] [] = []"
    by (simp add: Entry_immediate_def)
  from empty_path_is_invalid_id [OF reachable_init, of "''path''" "[Entry_immediate 22 (Variant ''1.5'')]" "[ex_function]" "[]"]
  show ?thesis using reachable_init c by simp
qed

text \<open>
  Claim C2 on the example: for the record with the entries \<open>main\<close> and \<open>outer\<close>, in this
  order, the path \<open>outer/main\<close> is interned.
\<close>

theorem hierarchy_entry_path_witness:
  "write_hierarchy_entry [] Hierarchy_init ex_record2 [ex_function, ex_loop] ''path'' =
     (''1'', snd (get_id Hierarchy_init [Entry_of_node ex_outer, Entry_of_node ex_main] ''path''))"
proof -
  have k: "concat (rev (map (\<lambda>e. rev (kept_chain [ex_function, ex_loop] e)) ex_record2))
           = [Entry_of_node ex_outer, Entry_of_node ex_main]"
    by (simp add: kept_chain_def ex_defs ex2_defs Entry_of_node_def CALI_INV_ID_def)
  have i: "fst (get_id Hierarchy_init [Entry_of_node ex_outer, Entry_of_node ex_main] ''path'') = 1"
    by (simp add: ex_defs get_id_def Hierarchy_init_def create_node_def tree_append_def
        new_HierarchyNode_def Entry_of_node_def)
  show ?thesis
    using hierarchy_entry_path [of "[]" Hierarchy_init ex_record2 "[ex_function, ex_loop]" "''path''"]
    by (simp add: k i decimal_1 case_prod_beta CALI_INV_ID_def)
qed

text \<open>
  Claim C2 as stated fails: for this record the code builds the path \<open>outer/main\<close>, the
  claim the path \<open>main/outer\<close>.
\<close>

theorem path_order_counterexample:
  "map label_of (rev (collect_path ex_record2 [ex_function, ex_loop] [])) = [''outer'', ''main''] \<and>
   map label_of (claimed_path ex_record2 [ex_function, ex_loop]) = [''main'', ''outer'']"
  by (simp add: claimed_path_def kept_chain_def ex_defs ex2_defs Entry_of_node_def label_of_def CALI_INV_ID_def)

text \<open>
  Claim C3 on the example of the spec: mode default, group-by \<open>region\<close>, aggregate
  \<open>sum\<close> of \<open>time.duration\<close>.
\<close>

theorem configure_selection_witness:
  "selection (select ex_spec_groupby) = Default \<and> selection (groupby ex_spec_groupby) = ListSelection \<and>
   m_attr_names (configure ex_aggregate_name ex_spec_groupby (new_JsonSplitFormatterImpl False))
     = [''region'', ''sum#time.duration''] \<and>
   \<not> m_select_all (configure ex_aggregate_name ex_spec_groupby (new_JsonSplitFormatterImpl False)) \<and>
   m_select_path (configure ex_aggregate_name ex_spec_groupby (new_JsonSplitFormatterImpl False))"
  using configure_selection [of ex_spec_groupby ex_aggregate_name "new_JsonSplitFormatterImpl False"]
  by (simp add: ex_spec_groupby_def ex_aggregate_name_def)

text \<open>
  Claim C3 as stated fails: in mode default with a group-by descriptor in list mode whose
  list is empty, there is no non-empty group-by list, and select-all stays false.
\<close>

theorem configure_empty_groupby_counterexample:
  "selection (select ex_spec_empty_groupby) = Default \<and>
   \<not> (selection (groupby ex_spec_empty_groupby) = ListSelection \<and>
      selection_list (groupby ex_spec_empty_groupby) \<noteq> []) \<and>
   \<not> m_select_all (configure ex_aggregate_name ex_spec_empty_groupby (new_JsonSplitFormatterImpl False))"
  by (simp add: ex_spec_empty_groupby_def configure_def Let_def)

lemma ex_columns:
  "init_columns ex_formatter ex_db =
     [make_column ''Time'' ex_duration, make_column ''phase'' ex_phase,
      \<lparr> title = ''path'', attributes = [ex_function, ex_loop], is_hierarchy = True \<rparr>]"
  by (simp add: init_columns_closed Let_def ex2_defs ex_defs new_JsonSplitFormatter_def configure_def
        new_JsonSplitFormatterImpl_def remove_pred_def column_title_def make_column_def)

text \<open>Claim C4 on the example: two value columns and then the path column.\<close>

theorem column_order_witness:
  "map title (init_columns ex_formatter ex_db) = [''Time'', ''phase'', ''path''] \<and>
   length (fst (row_cells id (init_columns ex_formatter ex_db) ex_record1 Hierarchy_init)) = 3"
proof -
  from column_order [of ex_formatter ex_db id "[]" ex_record1 Hierarchy_init]
  have "length (fst (row_cells id (init_columns ex_formatter ex_db) ex_record1 Hierarchy_init))
          = length (init_columns ex_formatter ex_db)"
    by blast
  then show ?thesis by (simp add: ex_columns make_column_def)
qed

text \<open>Claim C7 on the example: the numeric value of the aliased column \<open>Time\<close>.\<close>

theorem value_cell_witness:
  "write_immediate_entry id [] ex_record1 ex_duration = ''1.5'' \<and>
   make_column ''Time'' ex_duration \<in> set (init_columns ex_formatter ex_db) \<and>
   \<not> is_hierarchy (make_column ''Time'' ex_duration) \<and>
   cell id (make_column ''Time'' ex_duration) ex_record1 Hierarchy_init = (''1.5'', Hierarchy_init)"
proof -
  have v: "claimed_value_cell id ex_record1 ex_duration = ''1.5''"
    by (simp add: claimed_value_cell_def ex_defs ex2_defs Entry_of_node_def Entry_immediate_def)
  have m: "make_column ''Time'' ex_duration \<in> set (init_columns ex_formatter ex_db)"
    by (simp add: ex_columns)
  have n: "\<not> is_hierarchy (make_column ''Time'' ex_duration)"
    by (simp add: make_column_def ex_defs)
  from value_cell [of id "[]" ex_record1 ex_duration "make_column ''Time'' ex_duration" ex_formatter ex_db Hierarchy_init]
  show ?thesis using v m n by (auto simp: make_column_def)
qed

text \<open>
  Claim C7 as stated fails: the column of the textual attribute \<open>phase\<close>, which is
  neither nested nor stored as value, is a value column of \<open>init_columns\<close>, and \<open>flush\<close>
  writes the id of an interned node for it, not the quoted text of the entry.
\<close>

theorem value_column_counterexample:
  \<open>make_column ''phase'' ex_phase \<in> set (init_columns ex_formatter ex_db) \<and>
   fst (cell id (make_column ''phase'' ex_phase) [Entry_of_node ex_init] Hierarchy_init) = ''0'' \<and>
   claimed_value_cell id [Entry_of_node ex_init] ex_phase = ''"init"''\<close>
proof -
  have a: "make_column ''phase'' ex_phase \<in> set (init_columns ex_formatter ex_db)"
    by (simp add: ex_columns)
  have b: "fst (cell id (make_column ''phase'' ex_phase) [Entry_of_node ex_init] Hierarchy_init) = ''0''"
    by (simp add: cell_def make_column_def write_hierarchy_entry_def
        ex_defs ex_init_def Entry_of_node_def get_id_def Hierarchy_init_def create_node_def tree_append_def
        new_HierarchyNode_def CALI_INV_ID_def decimal_0)
  have c: \<open>claimed_value_cell id [Entry_of_node ex_init] ex_phase = ''"init"''\<close>
    by (simp add: claimed_value_cell_def ex_defs ex_init_def Entry_of_node_def)
  show ?thesis using a b c by simp
qed

text \<open>Claim C9 on the example: two calls of \<open>process_record\<close>, two rows.\<close>

theorem rows_match_process_record_calls_witness:
  "m_records ex_state = [ex_record1, ex_record2] \<and>
   length (fst (table_rows id (init_columns ex_state ex_db) (m_records ex_state) (m_hierarchy ex_state)))
     = 2"
proof -
  from rows_match_process_record_calls [OF ex_state_def refl, of id "[]"]
  have a: "m_records ex_state = [ex_record1, ex_record2]"
    and b: "length (fst (table_rows id (init_columns ex_state ex_db) (m_records ex_state)
                           (m_hierarchy ex_state))) = length [ex_record1, ex_record2]"
    by blast+
  have c: "length (fst (table_rows id (init_columns ex_state ex_db) (m_records ex_state)
                           (m_hierarchy ex_state))) = 2"
    unfolding b by simp
  show ?thesis using a c by (rule conjI)
qed

text \<open>
  Claim C6 on the example: two reference entries of attribute 30 and an immediate entry
  of attribute 31.
\<close>

theorem globals_merge_witness:
  "values_of 30 (visited_nodes (get_globals ex_db)) = [''x'', ''y''] \<and>
   map_index (write_globals_collect (get_globals ex_db) []) 30 = ''y/x'' \<and>
   get_globals ex_db = [Entry_of_node ex_x, Entry_of_node ex_y] @ Entry_immediate 31 (Variant ''release'') # [] \<and>
   \<not> is_reference (Entry_immediate 31 (Variant ''release'')) \<and>
   map_index (write_globals_collect (get_globals ex_db) []) 31 = ''release''"
proof -
  have g: "get_globals ex_db = [Entry_of_node ex_x, Entry_of_node ex_y] @ Entry_immediate 31 (Variant ''release'') # []"
    by (simp add: ex_defs)
  have r: "\<forall>e\<in>set (get_globals ex_db). \<not> is_reference e \<longrightarrow> Entry_attribute e \<noteq> 30"
    by (simp add: ex_defs Entry_of_node_def Entry_immediate_def)
  have vs: "values_of 30 (visited_nodes (get_globals ex_db)) = [''x'', ''y'']"
    by (simp add: ex_defs Entry_of_node_def Entry_immediate_def values_of_def visited_nodes_def CALI_INV_ID_def)
  have i: "\<not> is_reference (Entry_immediate 31 (Variant ''release''))"
    "Entry_attribute (Entry_immediate 31 (Variant ''release'')) = 31"
    "to_string (Entry_value (Entry_immediate 31 (Variant ''release''))) = ''release''"
    by (simp_all add: Entry_immediate_def)
  from globals_merge [of ex_db 30 "[Entry_of_node ex_x, Entry_of_node ex_y]" "Entry_immediate 31 (Variant ''release'')" "[]" id ex_formatter "[]"]
  show ?thesis using g r vs i by simp
qed

text \<open>
  Scenario A of the spec: the paths \<open>main/foo\<close> and then \<open>main/bar\<close> give the row ids 1
  and 2 and a dictionary of three nodes, \<open>foo\<close> and \<open>bar\<close> with the parent 0.
\<close>

lemma scenario_A:
  \<open>fst (write_hierarchy_entry [] Hierarchy_init [Entry_of_node ex_foo] [ex_function] ''path'') = ''1'' \<and>
   fst (write_hierarchy_entry [] ex_h1 [Entry_of_node ex_bar] [ex_function] ''path'') = ''2'' \<and>
   write_nodes id (snd (write_hierarchy_entry [] ex_h1 [Entry_of_node ex_bar] [ex_function] ''path'')) [] =
     ''"nodes": [ { "label": "main", "column": "path" }, { "label": "foo", "column": "path", "parent": 0 }, { "label": "bar", "column": "path", "parent": 0 } ]''\<close>
proof -
  have a: "rev (collect_path [Entry_of_node ex_foo] [ex_function] []) = ex_path_foo"
    by (simp add: ex_defs ex2_defs Entry_of_node_def CALI_INV_ID_def)
  have b: "rev (collect_path [Entry_of_node ex_bar] [ex_function] []) = ex_path_bar"
    by (simp add: ex_defs ex2_defs Entry_of_node_def CALI_INV_ID_def)
  have c: "get_id Hierarchy_init ex_path_foo ''path'' = (1, ex_h1)"
    by (simp add: ex_h1_def prod_eq_iff)
       (simp add: ex_defs ex2_defs get_id_def Hierarchy_init_def create_node_def tree_append_def
          new_HierarchyNode_def Entry_of_node_def)
  have d: "get_id ex_h1 ex_path_bar ''path'' =
     (2, \<lparr> heap = [\<lparr> tree_parent = None, tree_children = [1], m_id = CALI_INV_ID, m_label = [], m_column = [] \<rparr>,
                     \<lparr> tree_parent = Some 0, tree_children = [3, 2], m_id = 0, m_label = ''main'', m_column = ''path'' \<rparr>,
                     \<lparr> tree_parent = Some 1, tree_children = [], m_id = 1, m_label = ''foo'', m_column = ''path'' \<rparr>,
                     \<lparr> tree_parent = Some 1, tree_children = [], m_id = 2, m_label = ''bar'', m_column = ''path'' \<rparr>],
             m_root = 0, m_nodes = [1, 2, 3] \<rparr>)"
    by (simp add: ex_h1_value ex_defs ex2_defs get_id_def create_node_def tree_append_def
          new_HierarchyNode_def Entry_of_node_def)
  have e: "decimal (unat (1 :: cali_id_t)) = ''1''" "decimal (unat (2 :: cali_id_t)) = ''2''"
    "decimal (unat (0 :: cali_id_t)) = ''0''"
    by code_simp+
  have i: "(1 :: cali_id_t) \<noteq> CALI_INV_ID" "(2 :: cali_id_t) \<noteq> CALI_INV_ID" "(0 :: cali_id_t) \<noteq> CALI_INV_ID"
    by (simp_all add: CALI_INV_ID_def)
  show ?thesis
    by (simp only: write_hierarchy_entry_def Let_def a b c d e i split if_True if_False fst_conv snd_conv
          refl simp_thms)
       (simp add: write_nodes_def write_json_def e i del: unsigned_1 unsigned_numeral unsigned_0)
qed

end
